theory Spec2Isabelle
  imports Main "HOL-Library.Sublist"
begin

section \<open>Data model\<close>

text \<open>
  The types of \<^verbatim>\<open>types.ts\<close> as the two source files use them. A JavaScript string is a
  \<^typ>\<open>string\<close>; a property that may be \<^verbatim>\<open>undefined\<close> is an \<^typ>\<open>'a option\<close>; text outside
  ASCII is written as the UTF-8 bytes of the source file.
\<close>

datatype MessageRole = USER | ASSISTANT | SYSTEM

text \<open>
  \<^verbatim>\<open>base64\<close> is declared a string, but \<^verbatim>\<open>handleFileSelect\<close> stores
  \<^verbatim>\<open>base64String.split(',')[1]\<close> in it, which is \<^verbatim>\<open>undefined\<close> when the text has no comma.
\<close>

record Attachment =
  base64 :: "string option"
  mimeType :: string

record Web =
  uri :: "string option"
  title :: "string option"

record GroundingChunk =
  web :: "Web option"

record Message =
  id_msg :: string
  role :: MessageRole
  content :: string
  timestamp :: nat
  attachment :: "Attachment option"
  groundingChunks :: "GroundingChunk list option"

section \<open>Session Store: the class InMemorySessionService\<close>

text \<open>
  The field \<^verbatim>\<open>sessions\<close> maps a session identifier to an array object, and
  \<^verbatim>\<open>addMessage\<close> changes that array in place with \<^verbatim>\<open>push\<close>. The model keeps the
  reference: \<open>sessions\<close> maps an identifier to the address of its array, \<open>arrays\<close> gives the
  contents at each address, and \<open>allocated\<close> counts the arrays created so far, so the
  address \<open>allocated\<close> is the next fresh one (the literal \<^verbatim>\<open>[]\<close>).
\<close>

record InMemorySessionService =
  sessions :: "string \<rightharpoonup> nat"
  arrays :: "nat \<Rightarrow> Message list"
  allocated :: nat

definition newSessionService :: InMemorySessionService where
  "newSessionService = \<lparr>sessions = Map.empty, arrays = (\<lambda>_. []), allocated = 0\<rparr>"

text \<open>The literal \<^verbatim>\<open>[]\<close>: a fresh empty array and its address.\<close>

definition newArray :: "InMemorySessionService \<Rightarrow> nat \<times> InMemorySessionService" where
  "newArray sv =
     (allocated sv,
      sv\<lparr>arrays := (arrays sv)(allocated sv := []), allocated := Suc (allocated sv)\<rparr>)"

text \<open>
  \<^verbatim>\<open>createSession\<close>; the identifier \<^verbatim>\<open>crypto.randomUUID()\<close> returns is the
  argument \<open>sessionId\<close>.
\<close>

definition createSession ::
  "InMemorySessionService \<Rightarrow> string \<Rightarrow> string \<times> InMemorySessionService" where
  "createSession sv sessionId =
     (let (a, sv1) = newArray sv
      in (sessionId, sv1\<lparr>sessions := (sessions sv1)(sessionId \<mapsto> a)\<rparr>))"

text \<open>
  \<^verbatim>\<open>this.sessions.get(sessionId) || []\<close>: an array is truthy, also an empty one, so the
  right operand is taken only for an unknown identifier. \<open>getHistoryRef\<close> is the
  reference the method returns, \<open>getHistory\<close> the messages a caller reads from it.
\<close>

definition getHistoryRef ::
  "InMemorySessionService \<Rightarrow> string \<Rightarrow> nat \<times> InMemorySessionService" where
  "getHistoryRef sv sessionId =
     (case sessions sv sessionId of
        Some a \<Rightarrow> (a, sv)
      | None \<Rightarrow> newArray sv)"

definition getHistory :: "InMemorySessionService \<Rightarrow> string \<Rightarrow> Message list" where
  "getHistory sv sessionId =
     (let (a, sv1) = getHistoryRef sv sessionId in arrays sv1 a)"

definition addMessage ::
  "InMemorySessionService \<Rightarrow> string \<Rightarrow> Message \<Rightarrow> InMemorySessionService" where
  "addMessage sv sessionId message =
     (let (history, sv1) = getHistoryRef sv sessionId;
          sv2 = sv1\<lparr>arrays := (arrays sv1)(history := arrays sv1 history @ [message])\<rparr>
      in sv2\<lparr>sessions := (sessions sv2)(sessionId \<mapsto> history)\<rparr>)"

definition clearSession :: "InMemorySessionService \<Rightarrow> string \<Rightarrow> InMemorySessionService" where
  "clearSession sv sessionId = sv\<lparr>sessions := (sessions sv)(sessionId := None)\<rparr>"

text \<open>
  A run of \<^verbatim>\<open>addMessage\<close> calls, each with its session identifier, in call order.
\<close>

fun addMessages ::
  "InMemorySessionService \<Rightarrow> (string \<times> Message) list \<Rightarrow> InMemorySessionService" where
  "addMessages sv [] = sv"
| "addMessages sv ((sessionId, message) # calls) =
     addMessages (addMessage sv sessionId message) calls"

text \<open>
  No two identifiers share an array, and every array in use has been allocated. The
  invariant holds of the new service and every method keeps it, so it holds of every
  store the class reaches (lemma \<open>reachable_separate\<close>).
\<close>

definition separate :: "InMemorySessionService \<Rightarrow> bool" where
  "separate sv \<longleftrightarrow>
     inj_on (sessions sv) (dom (sessions sv)) \<and>
     (\<forall>a \<in> ran (sessions sv). a < allocated sv)"

text \<open>The stores reached from the new one by calls of the four methods.\<close>

inductive reachable :: "InMemorySessionService \<Rightarrow> bool" where
  new: "reachable newSessionService"
| create: "reachable sv \<Longrightarrow> reachable (snd (createSession sv sessionId))"
| read: "reachable sv \<Longrightarrow> reachable (snd (getHistoryRef sv sessionId))"
| add: "reachable sv \<Longrightarrow> reachable (addMessage sv sessionId message)"
| clear: "reachable sv \<Longrightarrow> reachable (clearSession sv sessionId)"

section \<open>Agent Client: the class AgentRunner\<close>

text \<open>
  The provider is outside the repository. Its conversation object is a \<open>Chat\<close>:
  \<open>chatId\<close> is the object's identity (the number of objects \<^verbatim>\<open>client.chats.create\<close>
  had returned before it) and \<open>config\<close> the configuration it was created with.
\<close>

datatype Tool = googleSearch

record ChatConfig =
  model :: string
  thinkingBudget :: nat
  systemInstruction :: string
  tools :: "Tool list"

record Chat =
  chatId :: nat
  config :: ChatConfig

text \<open>The argument of \<^verbatim>\<open>sendMessageStream\<close>: a string, or an array of parts.\<close>

datatype Part = TextPart string | InlineDataPart string "string option"

datatype MessageContent = PlainText string | Parts "Part list"

text \<open>One chunk of the provider's stream, with the optional chain the code reads.\<close>

record GroundingMetadata =
  groundingChunks_meta :: "GroundingChunk list option"

record Candidate =
  groundingMetadata :: "GroundingMetadata option"

record GenerateContentResponse =
  text_chunk :: "string option"
  candidates :: "Candidate list option"

record AgentResponse =
  text_resp :: string
  groundingChunks_resp :: "GroundingChunk list option"

text \<open>
  What \<^verbatim>\<open>await chat.sendMessageStream(...)\<close> gives: the call is rejected, or it gives a
  finite stream of chunks that ends normally or with an error.
\<close>

datatype StreamEnd = EndOfStream | StreamError

datatype SendResult = SendRejected | ResultStream "GenerateContentResponse list" StreamEnd

text \<open>
  The values the code takes from outside: the text of the system instruction (a fixed
  template literal of about sixty lines, carried here as a parameter) and the
  provider's answer to a message sent on a conversation.
\<close>

record Provider =
  instruction :: string
  sendMessageStream :: "Chat \<Rightarrow> MessageContent \<Rightarrow> SendResult"

text \<open>
  The field \<^verbatim>\<open>client\<close> stands for what the runner has done at the provider: the number
  of conversations created and the messages sent, in order.
\<close>

record GoogleGenAI =
  chatsCreated :: nat
  requests :: "(Chat \<times> MessageContent) list"

record AgentRunner =
  client :: GoogleGenAI
  chatSessions :: "string \<rightharpoonup> Chat"

definition MODEL_NAME :: string where
  "MODEL_NAME = ''gemini-2.5-flash''"

definition newAgentRunner :: AgentRunner where
  "newAgentRunner = \<lparr>client = \<lparr>chatsCreated = 0, requests = []\<rparr>, chatSessions = Map.empty\<rparr>"

text \<open>\<^verbatim>\<open>this.client.chats.create({model, config})\<close>: a new conversation object.\<close>

definition chats_create :: "string \<Rightarrow> GoogleGenAI \<Rightarrow> Chat \<times> GoogleGenAI" where
  "chats_create instr c =
     (\<lparr>chatId = chatsCreated c,
       config = \<lparr>model = MODEL_NAME, thinkingBudget = 4096, systemInstruction = instr,
                 tools = [googleSearch]\<rparr>\<rparr>,
      c\<lparr>chatsCreated := Suc (chatsCreated c)\<rparr>)"

text \<open>
  \<^verbatim>\<open>getOrCreateChat\<close>: if the map does not have the key, a conversation is created
  and stored under it; the result is \<^verbatim>\<open>this.chatSessions.get(sessionId)!\<close>, the value
  under the key, which would be \<^verbatim>\<open>undefined\<close> (\<open>None\<close>) for an absent key.
\<close>

definition getOrCreateChat ::
  "string \<Rightarrow> AgentRunner \<Rightarrow> string \<Rightarrow> Chat option \<times> AgentRunner" where
  "getOrCreateChat instr r sessionId =
     (let r1 =
        (if chatSessions r sessionId = None
         then (let (chat, c1) = chats_create instr (client r)
               in r\<lparr>client := c1, chatSessions := (chatSessions r)(sessionId \<mapsto> chat)\<rparr>)
         else r)
      in (chatSessions r1 sessionId, r1))"

definition resetSession :: "AgentRunner \<Rightarrow> string \<Rightarrow> AgentRunner" where
  "resetSession r sessionId = r\<lparr>chatSessions := (chatSessions r)(sessionId := None)\<rparr>"

text \<open>The default prompt of a message with an attachment and no text.\<close>

definition DEFAULT_PROMPT :: string where
  "DEFAULT_PROMPT =
     [CHR 0xD0, CHR 0x9F, CHR 0xD1, CHR 0x80, CHR 0xD0, CHR 0xBE, CHR 0xD0, CHR 0xB0, CHR 0xD0,
      CHR 0xBD, CHR 0xD0, CHR 0xB0, CHR 0xD0, CHR 0xBB, CHR 0xD0, CHR 0xB8, CHR 0xD0, CHR 0xB7,
      CHR 0xD0, CHR 0xB8, CHR 0xD1, CHR 0x80, CHR 0xD1, CHR 0x83, CHR 0xD0, CHR 0xB9] @
     '' '' @
     [CHR 0xD1, CHR 0x8D, CHR 0xD1, CHR 0x82, CHR 0xD0, CHR 0xBE, CHR 0xD1, CHR 0x82] @
     '' '' @
     [CHR 0xD0, CHR 0xB4, CHR 0xD0, CHR 0xBE, CHR 0xD0, CHR 0xBA, CHR 0xD1, CHR 0x83, CHR 0xD0,
      CHR 0xBC, CHR 0xD0, CHR 0xB5, CHR 0xD0, CHR 0xBD, CHR 0xD1, CHR 0x82] @
     ''/'' @
     [CHR 0xD0, CHR 0xB8, CHR 0xD0, CHR 0xB7, CHR 0xD0, CHR 0xBE, CHR 0xD0, CHR 0xB1, CHR 0xD1,
      CHR 0x80, CHR 0xD0, CHR 0xB0, CHR 0xD0, CHR 0xB6, CHR 0xD0, CHR 0xB5, CHR 0xD0, CHR 0xBD,
      CHR 0xD0, CHR 0xB8, CHR 0xD0, CHR 0xB5] @
     ''.''"

text \<open>
  The payload: with an attachment, the text (the default prompt when \<^verbatim>\<open>userInput\<close> is
  the empty string, which is falsy) and the image; without one, the text alone.
\<close>

definition messageContent :: "string \<Rightarrow> Attachment option \<Rightarrow> MessageContent" where
  "messageContent userInput att =
     (case att of
        Some a \<Rightarrow>
          Parts [TextPart (if userInput \<noteq> [] then userInput else DEFAULT_PROMPT),
                 InlineDataPart (mimeType a) (base64 a)]
      | None \<Rightarrow> PlainText userInput)"

text \<open>\<^verbatim>\<open>gc.web?.uri\<close>\<close>

definition web_uri :: "GroundingChunk \<Rightarrow> string option" where
  "web_uri gc = (case web gc of None \<Rightarrow> None | Some w \<Rightarrow> uri w)"

text \<open>The body of the \<^verbatim>\<open>forEach\<close>: push \<open>wc\<close> unless a collected chunk has its URI.\<close>

definition pushIfNew :: "GroundingChunk list \<Rightarrow> GroundingChunk \<Rightarrow> GroundingChunk list" where
  "pushIfNew gcs wc =
     (let exists = list_ex (\<lambda>gc. web_uri gc = web_uri wc) gcs
      in if \<not> exists then gcs @ [wc] else gcs)"

text \<open>\<^verbatim>\<open>responseChunk.candidates?.[0]?.groundingMetadata\<close>\<close>

definition metadataOf :: "GenerateContentResponse \<Rightarrow> GroundingMetadata option" where
  "metadataOf responseChunk =
     (case candidates responseChunk of
        None \<Rightarrow> None
      | Some cs \<Rightarrow> (case cs of [] \<Rightarrow> None | c0 # _ \<Rightarrow> groundingMetadata c0))"

text \<open>
  The chunks of \<^verbatim>\<open>metadata.groundingChunks.filter(c => !!c.web)\<close>, empty when the
  metadata or its list is absent.
\<close>

definition webChunks :: "GenerateContentResponse \<Rightarrow> GroundingChunk list" where
  "webChunks responseChunk =
     (case metadataOf responseChunk of
        None \<Rightarrow> []
      | Some metadata \<Rightarrow>
          (case groundingChunks_meta metadata of
             None \<Rightarrow> []
           | Some chunks \<Rightarrow> filter (\<lambda>c. web c \<noteq> None) chunks))"

text \<open>\<^verbatim>\<open>responseChunk.text || ""\<close>\<close>

definition textOf :: "GenerateContentResponse \<Rightarrow> string" where
  "textOf responseChunk = (case text_chunk responseChunk of None \<Rightarrow> [] | Some t \<Rightarrow> t)"

text \<open>
  The \<^verbatim>\<open>for await\<close> loop of \<^verbatim>\<open>call_agent_async\<close>: the responses it yields, one for
  each chunk, from the accumulators \<open>accumulatedText\<close> and \<open>gcs\<close>. A yielded response is
  the value the consumer reads when it is yielded.
\<close>

fun yields ::
  "string \<Rightarrow> GroundingChunk list \<Rightarrow> GenerateContentResponse list \<Rightarrow> AgentResponse list" where
  "yields accumulatedText gcs [] = []"
| "yields accumulatedText gcs (responseChunk # rest) =
     (let accumulatedText1 = accumulatedText @ textOf responseChunk;
          gcs1 = foldl pushIfNew gcs (webChunks responseChunk)
      in \<lparr>text_resp = accumulatedText1,
          groundingChunks_resp = (if length gcs1 > 0 then Some gcs1 else None)\<rparr>
         # yields accumulatedText1 gcs1 rest)"

datatype Completion = Returned | Thrown

text \<open>
  \<^verbatim>\<open>call_agent_async\<close>: the responses the generator yields, how it ends (the
  \<^verbatim>\<open>catch\<close> rethrows), and the runner afterwards. A call of \<^verbatim>\<open>sendMessageStream\<close> on
  \<^verbatim>\<open>undefined\<close> would throw a \<^verbatim>\<open>TypeError\<close> inside the \<^verbatim>\<open>try\<close>.
\<close>

definition call_agent_async ::
  "Provider \<Rightarrow> AgentRunner \<Rightarrow> string \<Rightarrow> string \<Rightarrow> Attachment option \<Rightarrow>
     (AgentResponse list \<times> Completion) \<times> AgentRunner" where
  "call_agent_async pv r sessionId userInput att =
     (let (handle, r1) = getOrCreateChat (instruction pv) r sessionId;
          msg = messageContent userInput att
      in case handle of
           None \<Rightarrow> (([], Thrown), r1)
         | Some chat \<Rightarrow>
             (case sendMessageStream pv chat msg of
                SendRejected \<Rightarrow> ([], Thrown)
              | ResultStream resultStream e \<Rightarrow>
                  (yields [] [] resultStream,
                   case e of EndOfStream \<Rightarrow> Returned | StreamError \<Rightarrow> Thrown),
              r1\<lparr>client := (client r1)\<lparr>requests := requests (client r1) @ [(chat, msg)]\<rparr>\<rparr>))"

text \<open>
  The conversation of a session: the cached one, or else the one the next
  \<^verbatim>\<open>chats.create\<close> returns. It is the handle \<^verbatim>\<open>getOrCreateChat\<close> returns (lemma
  \<open>getOrCreateChat_handle\<close>).
\<close>

definition sessionChat :: "string \<Rightarrow> AgentRunner \<Rightarrow> string \<Rightarrow> Chat" where
  "sessionChat instr r sid =
     (case chatSessions r sid of
        Some chat \<Rightarrow> chat
      | None \<Rightarrow> fst (chats_create instr (client r)))"

text \<open>
  The provider's answer to the message of one call: the conversation is the session's,
  the message is the payload built from the arguments.
\<close>

definition providerAnswer ::
  "Provider \<Rightarrow> AgentRunner \<Rightarrow> string \<Rightarrow> string \<Rightarrow> Attachment option \<Rightarrow> SendResult" where
  "providerAnswer pv r sid userInput att =
     sendMessageStream pv (sessionChat (instruction pv) r sid) (messageContent userInput att)"

text \<open>The citation list of a response: the list, empty when the field is absent.\<close>

definition citations :: "AgentResponse \<Rightarrow> GroundingChunk list" where
  "citations r = (case groundingChunks_resp r of None \<Rightarrow> [] | Some gcs \<Rightarrow> gcs)"

text \<open>
  Handles are numbered in creation order, so every cached handle is older than the
  next one to be created. The invariant holds of the new runner and every method keeps it.
\<close>

definition cached_below :: "AgentRunner \<Rightarrow> bool" where
  "cached_below r \<longleftrightarrow> (\<forall>chat \<in> ran (chatSessions r). chatId chat < chatsCreated (client r))"

section \<open>Attachment Encoder and composer: the component ChatInput\<close>

definition MAX_FILE_SIZE_MB :: nat where
  "MAX_FILE_SIZE_MB = 5"

definition MAX_FILE_SIZE_BYTES :: nat where
  "MAX_FILE_SIZE_BYTES = MAX_FILE_SIZE_MB * 1024 * 1024"

record File =
  size_file :: nat
  type_file :: string

text \<open>
  The component's state: the two \<^verbatim>\<open>useState\<close> cells, the value of the file input
  behind \<^verbatim>\<open>fileInputRef\<close> (\<open>None\<close> when the ref is not attached), and the notices
  shown with \<^verbatim>\<open>alert\<close>.
\<close>

record ChatInput =
  input :: string
  attachment_staged :: "Attachment option"
  fileInputValue :: "string option"
  alerts :: "string list"

text \<open>The notice for a file over the limit, with \<^verbatim>\<open>${MAX_FILE_SIZE_MB}\<close> printed as 5.\<close>

definition TOO_LARGE_NOTICE :: string where
  "TOO_LARGE_NOTICE =
     [CHR 0xD0, CHR 0xA4, CHR 0xD0, CHR 0xB0, CHR 0xD0, CHR 0xB9, CHR 0xD0, CHR 0xBB] @
     '' '' @
     [CHR 0xD1, CHR 0x81, CHR 0xD0, CHR 0xBB, CHR 0xD0, CHR 0xB8, CHR 0xD1, CHR 0x88, CHR 0xD0,
      CHR 0xBA, CHR 0xD0, CHR 0xBE, CHR 0xD0, CHR 0xBC] @
     '' '' @
     [CHR 0xD0, CHR 0xB1, CHR 0xD0, CHR 0xBE, CHR 0xD0, CHR 0xBB, CHR 0xD1, CHR 0x8C, CHR 0xD1,
      CHR 0x88, CHR 0xD0, CHR 0xBE, CHR 0xD0, CHR 0xB9] @
     ''. '' @
     [CHR 0xD0, CHR 0x9C, CHR 0xD0, CHR 0xB0, CHR 0xD0, CHR 0xBA, CHR 0xD1, CHR 0x81, CHR 0xD0,
      CHR 0xB8, CHR 0xD0, CHR 0xBC, CHR 0xD0, CHR 0xB0, CHR 0xD0, CHR 0xBB, CHR 0xD1, CHR 0x8C,
      CHR 0xD0, CHR 0xBD, CHR 0xD1, CHR 0x8B, CHR 0xD0, CHR 0xB9] @
     '' '' @
     [CHR 0xD1, CHR 0x80, CHR 0xD0, CHR 0xB0, CHR 0xD0, CHR 0xB7, CHR 0xD0, CHR 0xBC, CHR 0xD0,
      CHR 0xB5, CHR 0xD1, CHR 0x80] @
     '': 5MB''"

text \<open>
  \<^verbatim>\<open>handleFileSelect\<close> up to \<^verbatim>\<open>reader.readAsDataURL(file)\<close>: the new state and the file
  whose read was started, if one was. \<open>files\<close> is \<^verbatim>\<open>e.target.files\<close>.
\<close>

definition handleFileSelect :: "ChatInput \<Rightarrow> File list option \<Rightarrow> ChatInput \<times> File option" where
  "handleFileSelect st files =
     (case (case files of None \<Rightarrow> None | Some fs \<Rightarrow> (case fs of [] \<Rightarrow> None | f # _ \<Rightarrow> Some f)) of
        None \<Rightarrow> (st, None)
      | Some file \<Rightarrow>
          if size_file file > MAX_FILE_SIZE_BYTES
          then (st\<lparr>alerts := alerts st @ [TOO_LARGE_NOTICE],
                    fileInputValue := (case fileInputValue st of None \<Rightarrow> None | Some _ \<Rightarrow> Some [])\<rparr>,
                None)
          else (st, Some file))"

text \<open>\<^verbatim>\<open>s.split(',')\<close>: the pieces of \<open>s\<close> between commas, at least one piece.\<close>

fun split_comma :: "string \<Rightarrow> string list" where
  "split_comma [] = [[]]"
| "split_comma (c # cs) =
     (if c = CHR '','' then [] # split_comma cs
      else (case split_comma cs of [] \<Rightarrow> [[c]] | w # ws \<Rightarrow> (c # w) # ws))"

text \<open>\<^verbatim>\<open>xs[i]\<close>, which is \<^verbatim>\<open>undefined\<close> out of range.\<close>

fun index :: "'a list \<Rightarrow> nat \<Rightarrow> 'a option" where
  "index [] i = None"
| "index (x # xs) 0 = Some x"
| "index (x # xs) (Suc i) = index xs i"

datatype JsError = TypeError

text \<open>
  The \<^verbatim>\<open>onloadend\<close> callback of the read started for \<open>file\<close>. \<open>result\<close> is
  \<^verbatim>\<open>reader.result\<close>: the data URL, or \<^verbatim>\<open>null\<close> after a failed read, on which
  \<^verbatim>\<open>split\<close> throws.
\<close>

definition onloadend :: "ChatInput \<Rightarrow> File \<Rightarrow> string option \<Rightarrow> JsError + ChatInput" where
  "onloadend st file result =
     (case result of
        None \<Rightarrow> Inl TypeError
      | Some base64String \<Rightarrow>
          (let base64Content = index (split_comma base64String) 1
           in Inr (st\<lparr>attachment_staged :=
                        Some \<lparr>base64 = base64Content, mimeType = type_file file\<rparr>\<rparr>)))"

definition removeAttachment :: "ChatInput \<Rightarrow> ChatInput" where
  "removeAttachment st =
     st\<lparr>attachment_staged := None,
        fileInputValue := (case fileInputValue st of None \<Rightarrow> None | Some _ \<Rightarrow> Some [])\<rparr>"

text \<open>
  \<^verbatim>\<open>handleSubmit\<close>: the arguments of the \<^verbatim>\<open>onSend\<close> call, if it is made, and the new
  state. \<open>trim\<close> is the host's \<^verbatim>\<open>String.prototype.trim\<close>; the empty string is falsy.
\<close>

definition handleSubmit ::
  "(string \<Rightarrow> string) \<Rightarrow> bool \<Rightarrow> ChatInput \<Rightarrow> (string \<times> Attachment option) option \<times> ChatInput" where
  "handleSubmit trim disabled st =
     (if (trim (input st) \<noteq> [] \<or> attachment_staged st \<noteq> None) \<and> \<not> disabled
      then (Some (trim (input st), attachment_staged st),
            st\<lparr>input := [], attachment_staged := None\<rparr>)
      else (None, st))"

section \<open>Conversation Controller: the component App\<close>

datatype Status = idle | thinking | streaming | error

record SessionState =
  sessionId :: string
  messages :: "Message list"
  status :: Status

text \<open>The React state of \<open>App\<close> and the two singletons it imports.\<close>

record App =
  sessionState :: SessionState
  sessionService :: InMemorySessionService
  agentRunner :: AgentRunner

text \<open>The prop \<^verbatim>\<open>disabled\<close> that \<open>App\<close> passes to \<open>ChatInput\<close>.\<close>

definition disabled :: "SessionState \<Rightarrow> bool" where
  "disabled st \<longleftrightarrow> status st = thinking \<or> status st = streaming"

text \<open>The values of \<^verbatim>\<open>uuidv4()\<close> and \<^verbatim>\<open>Date.now()\<close> one turn reads, in call order.\<close>

record Host =
  userMsgId :: string
  userMsgTime :: nat
  assistantMsgId :: string
  assistantMsgTime :: nat
  errorMsgId :: string
  errorMsgTime :: nat

definition ERROR_TEXT :: string where
  "ERROR_TEXT =
     ''**[SYSTEM ERROR]** '' @
     [CHR 0xD0, CHR 0x9E, CHR 0xD1, CHR 0x88, CHR 0xD0, CHR 0xB8, CHR 0xD0, CHR 0xB1, CHR 0xD0,
      CHR 0xBA, CHR 0xD0, CHR 0xB0] @
     '' '' @
     [CHR 0xD0, CHR 0xBE, CHR 0xD0, CHR 0xB1, CHR 0xD1, CHR 0x80, CHR 0xD0, CHR 0xB0, CHR 0xD0,
      CHR 0xB1, CHR 0xD0, CHR 0xBE, CHR 0xD1, CHR 0x82, CHR 0xD0, CHR 0xBA, CHR 0xD0, CHR 0xB8] @
     '' '' @
     [CHR 0xD0, CHR 0xB7, CHR 0xD0, CHR 0xB0, CHR 0xD0, CHR 0xBF, CHR 0xD1, CHR 0x80, CHR 0xD0,
      CHR 0xBE, CHR 0xD1, CHR 0x81, CHR 0xD0, CHR 0xB0] @
     '' '' @
     [CHR 0xD0, CHR 0xB8, CHR 0xD0, CHR 0xBB, CHR 0xD0, CHR 0xB8] @
     '' '' @
     [CHR 0xD1, CHR 0x84, CHR 0xD0, CHR 0xB0, CHR 0xD0, CHR 0xB9, CHR 0xD0, CHR 0xBB, CHR 0xD0,
      CHR 0xB0] @
     ''.''"

definition userMsg :: "Host \<Rightarrow> string \<Rightarrow> Attachment option \<Rightarrow> Message" where
  "userMsg h c att =
     \<lparr>id_msg = userMsgId h, role = USER, content = c, timestamp = userMsgTime h,
      attachment = att, groundingChunks = None\<rparr>"

definition initialAssistantMsg :: "Host \<Rightarrow> Message" where
  "initialAssistantMsg h =
     \<lparr>id_msg = assistantMsgId h, role = ASSISTANT, content = [], timestamp = assistantMsgTime h,
      attachment = None, groundingChunks = None\<rparr>"

definition errorMsg :: "Host \<Rightarrow> Message" where
  "errorMsg h =
     \<lparr>id_msg = errorMsgId h, role = SYSTEM, content = ERROR_TEXT, timestamp = errorMsgTime h,
      attachment = None, groundingChunks = None\<rparr>"

text \<open>
  The state updater of the loop body. It reads \<^verbatim>\<open>lastMsg.role\<close>, a \<^verbatim>\<open>TypeError\<close> on
  an empty list; with a user message last it appends, otherwise it overwrites the last
  element.
\<close>

definition spliceAssistant :: "Message \<Rightarrow> SessionState \<Rightarrow> JsError + SessionState" where
  "spliceAssistant currentAssistantMsg prev =
     (let msgs = messages prev
      in if msgs = [] then Inl TypeError
         else if role (last msgs) = USER
         then Inr (prev\<lparr>messages := msgs @ [currentAssistantMsg]\<rparr>)
         else Inr (prev\<lparr>messages := msgs[length msgs - 1 := currentAssistantMsg]\<rparr>))"

text \<open>
  The \<^verbatim>\<open>for await\<close> loop of \<^verbatim>\<open>handleSendMessage\<close> over the responses the generator
  yields. State updaters run in the order of their \<^verbatim>\<open>setSessionState\<close> calls, each on
  the state the one before left and with \<^verbatim>\<open>currentAssistantMsg\<close> as it is at the call.
  The result: whether the loop ran through, the last
  \<^verbatim>\<open>currentAssistantMsg\<close>, the last session state, and the session states set on the way.
\<close>

fun consume ::
  "Message \<Rightarrow> bool \<Rightarrow> SessionState \<Rightarrow> AgentResponse list \<Rightarrow>
     bool \<times> Message \<times> SessionState \<times> SessionState list" where
  "consume currentAssistantMsg isFirstChunk st [] = (True, currentAssistantMsg, st, [])"
| "consume currentAssistantMsg isFirstChunk st (chunk # rest) =
     (let st1 = (if isFirstChunk then st\<lparr>status := streaming\<rparr> else st);
          set1 = (if isFirstChunk then [st1] else []);
          cur = currentAssistantMsg\<lparr>content := text_resp chunk,
                                     groundingChunks := groundingChunks_resp chunk\<rparr>
      in case spliceAssistant cur st1 of
           Inl e \<Rightarrow> (False, cur, st1, set1)
         | Inr st2 \<Rightarrow>
             (let (ok, cur', st', sets) = consume cur False st2 rest
              in (ok, cur', st', set1 @ [st2] @ sets)))"

text \<open>
  \<^verbatim>\<open>handleSendMessage\<close>: the application afterwards, and the session states set during
  the turn, in order. Nothing happens when the session identifier is the empty string.
  The \<^verbatim>\<open>catch\<close> block is entered when the generator throws or a statement of the
  \<^verbatim>\<open>try\<close> block does.
\<close>

definition handleSendMessage ::
  "Provider \<Rightarrow> Host \<Rightarrow> App \<Rightarrow> string \<Rightarrow> Attachment option \<Rightarrow> App \<times> SessionState list" where
  "handleSendMessage pv h app c att =
     (if sessionId (sessionState app) = [] then (app, [])
      else
        let sid = sessionId (sessionState app);
            sv1 = addMessage (sessionService app) sid (userMsg h c att);
            st1 = (sessionState app)\<lparr>messages := messages (sessionState app) @ [userMsg h c att],
                                      status := thinking\<rparr>;
            ((stream, completion), r1) = call_agent_async pv (agentRunner app) sid c att;
            (ok, cur, st2, sets) = consume (initialAssistantMsg h) True st1 stream
        in if ok \<and> completion = Returned
           then
             (let sv2 = addMessage sv1 sid cur;
                  st3 = st2\<lparr>status := idle\<rparr>
              in (\<lparr>sessionState = st3, sessionService = sv2, agentRunner = r1\<rparr>,
                  [st1] @ sets @ [st3]))
           else
             (let sv2 = addMessage sv1 sid (errorMsg h);
                  st3 = st2\<lparr>messages := messages st2 @ [errorMsg h], status := error\<rparr>
              in (\<lparr>sessionState = st3, sessionService = sv2, agentRunner = r1\<rparr>,
                  [st1] @ sets @ [st3])))"

text \<open>
  The value of \<^verbatim>\<open>currentAssistantMsg\<close> after the loop has taken the responses
  \<open>stream\<close>: the fields \<^verbatim>\<open>content\<close> and \<^verbatim>\<open>groundingChunks\<close> are those of the last
  response.
\<close>

definition lastAssistantMsg :: "Message \<Rightarrow> AgentResponse list \<Rightarrow> Message" where
  "lastAssistantMsg m stream =
     (if stream = [] then m
      else m\<lparr>content := text_resp (last stream),
             groundingChunks := groundingChunks_resp (last stream)\<rparr>)"

section \<open>Concrete inputs\<close>

text \<open>Small values on which the theorems below are instantiated.\<close>

definition msg :: "MessageRole \<Rightarrow> string \<Rightarrow> Message" where
  "msg r c =
     \<lparr>id_msg = c, role = r, content = c, timestamp = 0, attachment = None,
      groundingChunks = None\<rparr>"

definition answering :: "SendResult \<Rightarrow> Provider" where
  "answering res = \<lparr>instruction = ''be brief'', sendMessageStream = (\<lambda>chat m. res)\<rparr>"

definition textChunk :: "string option \<Rightarrow> GenerateContentResponse" where
  "textChunk t = \<lparr>text_chunk = t, candidates = None\<rparr>"

definition citing :: "string \<Rightarrow> string \<Rightarrow> GroundingChunk" where
  "citing u t = \<lparr>web = Some \<lparr>uri = Some u, title = Some t\<rparr>\<rparr>"

definition groundedChunk :: "string option \<Rightarrow> GroundingChunk list \<Rightarrow> GenerateContentResponse" where
  "groundedChunk t gs =
     \<lparr>text_chunk = t,
      candidates = Some [\<lparr>groundingMetadata = Some \<lparr>groundingChunks_meta = Some gs\<rparr>\<rparr>]\<rparr>"

definition cited :: "GenerateContentResponse list" where
  "cited =
     [textChunk (Some ''a''),
      groundedChunk (Some ''b'') [citing ''u2'' ''other'', \<lparr>web = None\<rparr>],
      groundedChunk None [citing ''u1'' ''first''],
      groundedChunk (Some ''c'') [citing ''u1'' ''second'', citing ''u2'' ''again'']]"

definition composer0 :: ChatInput where
  "composer0 =
     \<lparr>input = ''look'',
      attachment_staged = Some \<lparr>base64 = Some ''QUJD'', mimeType = ''image/png''\<rparr>,
      fileInputValue = Some ''scan.png'', alerts = []\<rparr>"

definition host0 :: Host where
  "host0 =
     \<lparr>userMsgId = ''id-user'', userMsgTime = 10, assistantMsgId = ''id-assistant'',
      assistantMsgTime = 11, errorMsgId = ''id-error'', errorMsgTime = 12\<rparr>"

definition app0 :: App where
  "app0 =
     \<lparr>sessionState = \<lparr>sessionId = ''s1'', messages = [msg ASSISTANT ''hello''], status = idle\<rparr>,
      sessionService =
        addMessage (snd (createSession newSessionService ''s1'')) ''s1'' (msg ASSISTANT ''hello''),
      agentRunner = newAgentRunner\<rparr>"

section \<open>Session Store: proofs\<close>

lemma separate_new: "separate newSessionService"
  by (simp add: separate_def newSessionService_def)

lemma separate_fresh:
  assumes "separate sv"
    and sessions': "sessions sv' = (sessions sv)(k \<mapsto> allocated sv)"
    and allocated': "allocated sv' = Suc (allocated sv)"
  shows "separate sv'"
proof -
  have fresh: "sessions sv x \<noteq> Some (allocated sv)" for x
  proof
    assume "sessions sv x = Some (allocated sv)"
    then have "allocated sv \<in> ran (sessions sv)" by (auto simp: ran_def)
    with assms(1) show False by (auto simp: separate_def)
  qed
  have inj: "inj_on (sessions sv) (dom (sessions sv))"
    using assms(1) by (simp add: separate_def)
  have "inj_on ((sessions sv)(k \<mapsto> allocated sv)) (dom ((sessions sv)(k \<mapsto> allocated sv)))"
    unfolding inj_on_def
  proof (intro ballI impI)
    fix x y
    assume x: "x \<in> dom ((sessions sv)(k \<mapsto> allocated sv))"
      and y: "y \<in> dom ((sessions sv)(k \<mapsto> allocated sv))"
      and e: "((sessions sv)(k \<mapsto> allocated sv)) x = ((sessions sv)(k \<mapsto> allocated sv)) y"
    show "x = y"
    proof (cases "x = k")
      case True
      then show ?thesis using e fresh [of y] by (auto split: if_splits)
    next
      case xk: False
      show ?thesis
      proof (cases "y = k")
        case True
        then show ?thesis using e fresh [of x] by (auto split: if_splits)
      next
        case False
        with xk x y e have "x \<in> dom (sessions sv)" "y \<in> dom (sessions sv)"
          "sessions sv x = sessions sv y" by auto
        with inj show ?thesis by (auto dest: inj_onD)
      qed
    qed
  qed
  moreover have "\<forall>a \<in> ran ((sessions sv)(k \<mapsto> allocated sv)). a < Suc (allocated sv)"
  proof
    fix a
    assume "a \<in> ran ((sessions sv)(k \<mapsto> allocated sv))"
    then obtain x where "((sessions sv)(k \<mapsto> allocated sv)) x = Some a"
      by (auto simp: ran_def)
    then have "a = allocated sv \<or> a \<in> ran (sessions sv)"
      by (auto simp: ran_def split: if_splits)
    with assms(1) show "a < Suc (allocated sv)"
      by (auto simp: separate_def less_Suc_eq)
  qed
  ultimately show ?thesis by (simp add: separate_def sessions' allocated')
qed

lemma separate_createSession:
  "separate sv \<Longrightarrow> separate (snd (createSession sv sid))"
  by (erule separate_fresh [where k = sid])
     (simp_all add: createSession_def newArray_def)

lemma separate_addMessage:
  assumes "separate sv"
  shows "separate (addMessage sv sid message)"
proof (cases "sessions sv sid")
  case None
  then show ?thesis
    by (intro separate_fresh [OF assms, where k = sid])
       (simp_all add: addMessage_def getHistoryRef_def newArray_def)
next
  case (Some a)
  then have "(sessions sv)(sid \<mapsto> a) = sessions sv" by (simp add: map_upd_triv)
  with Some assms show ?thesis
    by (simp add: addMessage_def getHistoryRef_def separate_def)
qed

lemma separate_clearSession:
  assumes "separate sv"
  shows "separate (clearSession sv sid)"
proof -
  have "dom ((sessions sv)(sid := None)) \<subseteq> dom (sessions sv)" by auto
  moreover have "ran ((sessions sv)(sid := None)) \<subseteq> ran (sessions sv)"
    by (auto simp: ran_def split: if_splits)
  moreover have "inj_on ((sessions sv)(sid := None)) (dom ((sessions sv)(sid := None)))"
    using assms unfolding separate_def inj_on_def
    by (auto split: if_splits)
  ultimately show ?thesis
    using assms by (auto simp: separate_def clearSession_def)
qed

lemma separate_getHistoryRef:
  assumes "separate sv"
  shows "separate (snd (getHistoryRef sv sid))"
proof (cases "sessions sv sid")
  case None
  with assms show ?thesis
    by (auto simp: getHistoryRef_def newArray_def separate_def less_Suc_eq)
next
  case (Some a)
  with assms show ?thesis by (simp add: getHistoryRef_def)
qed

lemma reachable_separate: "reachable sv \<Longrightarrow> separate sv"
  by (induction rule: reachable.induct)
     (simp_all add: separate_new separate_createSession separate_getHistoryRef
        separate_addMessage separate_clearSession)

lemma separate_addMessages:
  "separate sv \<Longrightarrow> separate (addMessages sv calls)"
  by (induction sv calls rule: addMessages.induct) (simp_all add: separate_addMessage)

lemma getHistory_unknown:
  "sessions sv sid = None \<Longrightarrow> getHistory sv sid = []"
  by (simp add: getHistory_def getHistoryRef_def newArray_def)

lemma getHistory_addMessage_same:
  "getHistory (addMessage sv sid message) sid = getHistory sv sid @ [message]"
  by (cases "sessions sv sid")
     (simp_all add: getHistory_def getHistoryRef_def addMessage_def newArray_def)

lemma known_addMessage:
  "sessions (addMessage sv sid message) sid \<noteq> None"
  by (cases "sessions sv sid")
     (simp_all add: getHistoryRef_def addMessage_def newArray_def)

lemma getHistory_addMessage_other:
  assumes "separate sv" and "s \<noteq> s'"
  shows "getHistory (addMessage sv s message) s' = getHistory sv s'"
proof (cases "sessions sv s")
  case None
  show ?thesis
  proof (cases "sessions sv s'")
    case n: None
    with None assms(2) show ?thesis
      by (simp add: getHistory_def getHistoryRef_def addMessage_def newArray_def)
  next
    case (Some a')
    then have "a' \<in> ran (sessions sv)" by (auto simp: ran_def)
    with assms(1) have "a' \<noteq> allocated sv" by (auto simp: separate_def)
    with None Some assms(2) show ?thesis
      by (simp add: getHistory_def getHistoryRef_def addMessage_def newArray_def)
  qed
next
  case (Some a)
  show ?thesis
  proof (cases "sessions sv s'")
    case None
    with Some assms(2) show ?thesis
      by (simp add: getHistory_def getHistoryRef_def addMessage_def newArray_def)
  next
    case s': (Some a')
    have "a' \<noteq> a"
    proof
      assume "a' = a"
      with Some s' have "sessions sv s = sessions sv s'" by simp
      moreover have "s \<in> dom (sessions sv)" "s' \<in> dom (sessions sv)"
        using Some s' by auto
      ultimately have "s = s'"
        using assms(1) by (auto simp: separate_def dest: inj_onD)
      with assms(2) show False by simp
    qed
    with Some s' assms(2) show ?thesis
      by (simp add: getHistory_def getHistoryRef_def addMessage_def)
  qed
qed

lemma getHistory_clearSession_other:
  "s \<noteq> s' \<Longrightarrow> getHistory (clearSession sv s) s' = getHistory sv s'"
  by (cases "sessions sv s'")
     (simp_all add: getHistory_def getHistoryRef_def clearSession_def newArray_def)

lemma getHistory_addMessages:
  "separate sv \<Longrightarrow>
   getHistory (addMessages sv calls) sid =
     getHistory sv sid @ map snd (filter (\<lambda>c. fst c = sid) calls)"
proof (induction sv calls rule: addMessages.induct)
  case (1 sv)
  then show ?case by simp
next
  case (2 sv s message calls)
  then have "getHistory (addMessages (addMessage sv s message) calls) sid =
      getHistory (addMessage sv s message) sid @
        map snd (filter (\<lambda>c. fst c = sid) calls)"
    by (simp add: separate_addMessage)
  moreover have "getHistory (addMessage sv s message) sid =
      getHistory sv sid @ (if s = sid then [message] else [])"
    using "2.prems" getHistory_addMessage_same [of sv sid message]
      getHistory_addMessage_other [of sv s sid message]
    by auto
  ultimately show ?case by simp
qed

text \<open>
  C3. After any run of \<^verbatim>\<open>addMessage\<close> calls, \<^verbatim>\<open>getHistory\<close> of a session returns what
  it returned before the run followed by the messages the run added to that session, in
  call order, with nothing reordered and nothing dropped (calls on other sessions may
  stand between them); and an \<^verbatim>\<open>addMessage\<close> on an identifier the store does not
  know creates the session with that single message.
\<close>

theorem addMessage_appends_in_call_order:
  assumes "separate sv"
  shows "getHistory (addMessages sv calls) sid =
           getHistory sv sid @ map snd (filter (\<lambda>c. fst c = sid) calls) \<and>
         getHistory (addMessages sv (map (Pair sid) ms)) sid = getHistory sv sid @ ms \<and>
         (sessions sv sid = None \<longrightarrow>
            getHistory (addMessage sv sid message) sid = [message] \<and>
            sessions (addMessage sv sid message) sid \<noteq> None)"
proof (intro conjI impI)
  show "getHistory (addMessages sv calls) sid =
           getHistory sv sid @ map snd (filter (\<lambda>c. fst c = sid) calls)"
    using assms by (rule getHistory_addMessages)
  have "map snd (filter (\<lambda>c. fst c = sid) (map (Pair sid) ms)) = ms"
    by (induction ms) simp_all
  then show "getHistory (addMessages sv (map (Pair sid) ms)) sid = getHistory sv sid @ ms"
    using getHistory_addMessages [OF assms, of "map (Pair sid) ms" sid] by simp
  show "getHistory (addMessage sv sid message) sid = [message]"
    if "sessions sv sid = None"
    using that getHistory_addMessage_same [of sv sid message]
    by (simp add: getHistory_unknown)
  show "sessions (addMessage sv sid message) sid \<noteq> None"
    by (rule known_addMessage)
qed

theorem addMessage_appends_in_call_order_witness:
  "separate newSessionService \<and>
   sessions newSessionService ''s1'' = None \<and>
   getHistory
     (addMessages newSessionService
        [(''s1'', msg USER ''a''), (''s2'', msg USER ''x''), (''s1'', msg ASSISTANT ''b''),
         (''s1'', msg USER ''a'')]) ''s1'' =
     [msg USER ''a'', msg ASSISTANT ''b'', msg USER ''a''] \<and>
   getHistory
     (addMessages newSessionService (map (Pair ''s1'') [msg USER ''a'', msg USER ''a'']))
     ''s1'' = [msg USER ''a'', msg USER ''a''] \<and>
   getHistory (addMessage newSessionService ''s1'' (msg USER ''a'')) ''s1'' = [msg USER ''a''] \<and>
   sessions (addMessage newSessionService ''s1'' (msg USER ''a'')) ''s1'' \<noteq> None"
proof -
  have n: "sessions newSessionService ''s1'' = None"
    by (simp add: newSessionService_def)
  have e: "getHistory newSessionService ''s1'' = []"
    using n by (rule getHistory_unknown)
  show ?thesis
    using n e
      addMessage_appends_in_call_order [OF separate_new,
        of "[(''s1'', msg USER ''a''), (''s2'', msg USER ''x''), (''s1'', msg ASSISTANT ''b''),
            (''s1'', msg USER ''a'')]" "''s1''" "[msg USER ''a'', msg USER ''a'']" "msg USER ''a''"]
    by (simp add: separate_new)
qed

text \<open>
  C9. \<^verbatim>\<open>getHistory\<close> returns a list for every store and identifier (the method has no
  failing branch): the empty list for an identifier the store does not know, and the
  empty list after \<^verbatim>\<open>clearSession\<close> of that identifier, whatever the store held, since
  \<^verbatim>\<open>clearSession\<close> makes the identifier unknown.
\<close>

theorem getHistory_empty_when_unknown_or_cleared:
  "(sessions sv sid = None \<longrightarrow> getHistory sv sid = []) \<and>
   sessions (clearSession sv sid) sid = None \<and>
   getHistory (clearSession sv sid) sid = []"
proof (intro conjI impI)
  show "getHistory sv sid = []" if "sessions sv sid = None"
    using that by (rule getHistory_unknown)
  show c: "sessions (clearSession sv sid) sid = None"
    by (simp add: clearSession_def)
  show "getHistory (clearSession sv sid) sid = []"
    using c by (rule getHistory_unknown)
qed

theorem getHistory_empty_when_unknown_or_cleared_witness:
  "sessions (addMessage newSessionService ''s1'' (msg USER ''a'')) ''s2'' = None \<and>
   getHistory (addMessage newSessionService ''s1'' (msg USER ''a'')) ''s2'' = [] \<and>
   getHistory (addMessage newSessionService ''s1'' (msg USER ''a'')) ''s1'' = [msg USER ''a''] \<and>
   getHistory (clearSession (addMessage newSessionService ''s1'' (msg USER ''a'')) ''s1'') ''s1''
     = []"
proof -
  have n: "sessions (addMessage newSessionService ''s1'' (msg USER ''a'')) ''s2'' = None"
    by (simp add: addMessage_def getHistoryRef_def newArray_def newSessionService_def)
  have h: "getHistory (addMessage newSessionService ''s1'' (msg USER ''a'')) ''s1''
      = [msg USER ''a'']"
    by (simp add: getHistory_addMessage_same getHistory_unknown newSessionService_def)
  show ?thesis
    using n h
      getHistory_empty_when_unknown_or_cleared
        [of "addMessage newSessionService ''s1'' (msg USER ''a'')" "''s2''"]
      getHistory_empty_when_unknown_or_cleared
        [of "addMessage newSessionService ''s1'' (msg USER ''a'')" "''s1''"]
    by simp
qed

text \<open>
  C10. The operations of the store are local to their session: for distinct identifiers
  \<open>s\<close> and \<open>s'\<close>, neither \<^verbatim>\<open>addMessage\<close> on \<open>s\<close> nor \<^verbatim>\<open>clearSession\<close> of \<open>s\<close> changes
  what \<^verbatim>\<open>getHistory\<close> returns for \<open>s'\<close>.
\<close>

theorem other_sessions_unchanged:
  assumes "separate sv" and "s \<noteq> s'"
  shows "getHistory (addMessage sv s message) s' = getHistory sv s' \<and>
         getHistory (clearSession sv s) s' = getHistory sv s'"
  using assms
  by (simp add: getHistory_addMessage_other getHistory_clearSession_other)

theorem other_sessions_unchanged_witness:
  "separate (addMessage (addMessage newSessionService ''s1'' (msg USER ''a'')) ''s2''
      (msg USER ''x'')) \<and>
   ''s1'' \<noteq> ''s2'' \<and>
   getHistory (addMessage (addMessage newSessionService ''s1'' (msg USER ''a'')) ''s2''
      (msg USER ''x'')) ''s2'' = [msg USER ''x''] \<and>
   getHistory
     (addMessage
        (addMessage (addMessage newSessionService ''s1'' (msg USER ''a'')) ''s2''
           (msg USER ''x''))
        ''s1'' (msg ASSISTANT ''b'')) ''s2'' = [msg USER ''x''] \<and>
   getHistory
     (clearSession
        (addMessage (addMessage newSessionService ''s1'' (msg USER ''a'')) ''s2''
           (msg USER ''x''))
        ''s1'') ''s2'' = [msg USER ''x'']"
proof -
  let ?sv = "addMessage (addMessage newSessionService ''s1'' (msg USER ''a'')) ''s2''
      (msg USER ''x'')"
  have sep: "separate ?sv"
    by (intro separate_addMessage separate_new)
  have d: "''s1'' \<noteq> ''s2''" by simp
  have "sessions (addMessage newSessionService ''s1'' (msg USER ''a'')) ''s2'' = None"
    by (simp add: addMessage_def getHistoryRef_def newArray_def newSessionService_def)
  then have h: "getHistory ?sv ''s2'' = [msg USER ''x'']"
    by (simp add: getHistory_addMessage_same getHistory_unknown)
  show ?thesis
    using sep d h other_sessions_unchanged [OF sep d, of "msg ASSISTANT ''b''"]
    by simp
qed

section \<open>Agent Client: proofs\<close>

lemma length_yields: "length (yields acc gcs chunks) = length chunks"
  by (induction chunks arbitrary: acc gcs) (simp_all add: Let_def)

lemma foldl_pushIfNew_append:
  "foldl pushIfNew (foldl pushIfNew gcs xs) ys = foldl pushIfNew gcs (xs @ ys)"
  by simp

lemma yields_nth:
  "i < length chunks \<Longrightarrow>
   yields acc gcs chunks ! i =
     \<lparr>text_resp = acc @ concat (map textOf (take (Suc i) chunks)),
      groundingChunks_resp =
        (if length (foldl pushIfNew gcs (concat (map webChunks (take (Suc i) chunks)))) > 0
         then Some (foldl pushIfNew gcs (concat (map webChunks (take (Suc i) chunks))))
         else None)\<rparr>"
proof (induction chunks arbitrary: acc gcs i)
  case Nil
  then show ?case by simp
next
  case (Cons c cs)
  show ?case
  proof (cases i)
    case 0
    then show ?thesis by (simp add: Let_def)
  next
    case (Suc j)
    with Cons.prems have "j < length cs" by simp
    from Cons.IH [OF this] Suc show ?thesis
      by (simp add: Let_def)
  qed
qed

lemma pushIfNew_if:
  "pushIfNew gcs wc = (if web_uri wc \<in> web_uri ` set gcs then gcs else gcs @ [wc])"
proof -
  have "list_ex (\<lambda>gc. web_uri gc = web_uri wc) gcs \<longleftrightarrow> web_uri wc \<in> web_uri ` set gcs"
    unfolding list_ex_iff image_iff by metis
  then show ?thesis by (simp add: pushIfNew_def)
qed

lemma pushIfNew_uris:
  "web_uri ` set (pushIfNew gcs wc) = insert (web_uri wc) (web_uri ` set gcs)"
  by (auto simp: pushIfNew_if)

lemma pushIfNew_distinct:
  "distinct (map web_uri gcs) \<Longrightarrow> distinct (map web_uri (pushIfNew gcs wc))"
  by (simp add: pushIfNew_if)

lemma foldl_pushIfNew_distinct:
  "distinct (map web_uri gcs) \<Longrightarrow> distinct (map web_uri (foldl pushIfNew gcs ws))"
  by (induction ws arbitrary: gcs) (simp_all add: pushIfNew_distinct)

lemma foldl_pushIfNew_uris:
  "web_uri ` set (foldl pushIfNew gcs ws) = web_uri ` set gcs \<union> web_uri ` set ws"
proof (induction ws arbitrary: gcs)
  case Nil
  then show ?case by simp
next
  case (Cons w ws)
  have "web_uri ` set (foldl pushIfNew (pushIfNew gcs w) ws) =
      web_uri ` set (pushIfNew gcs w) \<union> web_uri ` set ws"
    by (rule Cons.IH)
  then show ?case by (simp add: pushIfNew_uris)
qed

lemma foldl_pushIfNew_subset:
  "set (foldl pushIfNew gcs ws) \<subseteq> set gcs \<union> set ws"
proof (induction ws arbitrary: gcs)
  case Nil
  then show ?case by simp
next
  case (Cons w ws)
  have "set (foldl pushIfNew (pushIfNew gcs w) ws) \<subseteq> set (pushIfNew gcs w) \<union> set ws"
    by (rule Cons.IH)
  moreover have "set (pushIfNew gcs w) \<subseteq> insert w (set gcs)"
    by (simp add: pushIfNew_if subset_insertI)
  ultimately show ?case by auto
qed

lemma find_app:
  "find P (xs @ ys) = (case find P xs of None \<Rightarrow> find P ys | Some x \<Rightarrow> Some x)"
  by (induction xs) simp_all

lemma find_pushIfNew:
  "find (\<lambda>g. web_uri g = u) (pushIfNew gcs w @ ws) = find (\<lambda>g. web_uri g = u) (gcs @ w # ws)"
proof (cases "web_uri w \<in> web_uri ` set gcs")
  case False
  then show ?thesis by (simp add: pushIfNew_if)
next
  case True
  show ?thesis
  proof (cases "find (\<lambda>g. web_uri g = u) gcs")
    case (Some g)
    with True show ?thesis by (simp add: pushIfNew_if find_app)
  next
    case None
    then have "\<forall>g \<in> set gcs. web_uri g \<noteq> u" by (simp add: find_None_iff)
    with True have "web_uri w \<noteq> u" by auto
    with True None show ?thesis by (simp add: pushIfNew_if find_app)
  qed
qed

lemma foldl_pushIfNew_find:
  "find (\<lambda>g. web_uri g = u) (foldl pushIfNew gcs ws) = find (\<lambda>g. web_uri g = u) (gcs @ ws)"
proof (induction ws arbitrary: gcs)
  case Nil
  then show ?case by simp
next
  case (Cons w ws)
  from Cons.IH [of "pushIfNew gcs w"] show ?case by (simp add: find_pushIfNew)
qed

lemma foldl_pushIfNew_Nil: "foldl pushIfNew gcs ws = [] \<longleftrightarrow> gcs = [] \<and> ws = []"
  using foldl_pushIfNew_uris [of gcs ws]
  by (metis Un_empty image_is_empty set_empty)

lemma distinct_count_one:
  "distinct (map f xs) \<Longrightarrow> x \<in> set xs \<Longrightarrow> length (filter (\<lambda>y. f y = f x) xs) = 1"
  by (induction xs) (auto simp: filter_empty_conv image_iff)


lemma getOrCreateChat_handle:
  "fst (getOrCreateChat instr r sid) = Some (sessionChat instr r sid)"
  by (cases "chatSessions r sid")
     (simp_all add: getOrCreateChat_def sessionChat_def split_beta Let_def)

lemma getOrCreateChat_known:
  "chatSessions r sid = Some chat \<Longrightarrow> getOrCreateChat instr r sid = (Some chat, r)"
  by (simp add: getOrCreateChat_def)

lemma getOrCreateChat_unknown:
  "chatSessions r sid = None \<Longrightarrow>
   getOrCreateChat instr r sid =
     (Some (fst (chats_create instr (client r))),
      r\<lparr>client := snd (chats_create instr (client r)),
        chatSessions := (chatSessions r)(sid \<mapsto> fst (chats_create instr (client r)))\<rparr>)"
  by (simp add: getOrCreateChat_def split_beta Let_def)

lemma call_agent_async_yields:
  assumes "providerAnswer pv r sid userInput att = ResultStream chunks e"
  shows "fst (call_agent_async pv r sid userInput att) =
           (yields [] [] chunks, case e of EndOfStream \<Rightarrow> Returned | StreamError \<Rightarrow> Thrown)"
proof -
  obtain r1 where "getOrCreateChat (instruction pv) r sid =
      (Some (sessionChat (instruction pv) r sid), r1)"
    using getOrCreateChat_handle [of "instruction pv" r sid]
    by (cases "getOrCreateChat (instruction pv) r sid") simp
  with assms show ?thesis
    by (simp add: call_agent_async_def providerAnswer_def)
qed

lemma call_agent_async_rejected:
  assumes "providerAnswer pv r sid userInput att = SendRejected"
  shows "fst (call_agent_async pv r sid userInput att) = ([], Thrown)"
proof -
  obtain r1 where "getOrCreateChat (instruction pv) r sid =
      (Some (sessionChat (instruction pv) r sid), r1)"
    using getOrCreateChat_handle [of "instruction pv" r sid]
    by (cases "getOrCreateChat (instruction pv) r sid") simp
  with assms show ?thesis
    by (simp add: call_agent_async_def providerAnswer_def)
qed

lemma call_agent_async_runner:
  "snd (call_agent_async pv r sid userInput att) =
     (snd (getOrCreateChat (instruction pv) r sid))
       \<lparr>client := (client (snd (getOrCreateChat (instruction pv) r sid)))
          \<lparr>requests := requests (client (snd (getOrCreateChat (instruction pv) r sid))) @
             [(sessionChat (instruction pv) r sid, messageContent userInput att)]\<rparr>\<rparr>"
proof -
  obtain r1 where "getOrCreateChat (instruction pv) r sid =
      (Some (sessionChat (instruction pv) r sid), r1)"
    using getOrCreateChat_handle [of "instruction pv" r sid]
    by (cases "getOrCreateChat (instruction pv) r sid") simp
  then show ?thesis
    by (simp add: call_agent_async_def Let_def)
qed

lemma yields_text_nth:
  "i < length chunks \<Longrightarrow>
   text_resp (yields acc gcs chunks ! i) = acc @ concat (map textOf (take (Suc i) chunks))"
  by (simp add: yields_nth)

lemma take_Suc_concat:
  "Suc i < length chunks \<Longrightarrow>
   concat (map f (take (Suc (Suc i)) chunks)) = concat (map f (take (Suc i) chunks)) @ f (chunks ! Suc i)"
  by (simp add: take_Suc_conv_app_nth [of "Suc i"])

text \<open>
  C1. When the provider answers with the chunks \<open>chunks\<close>, \<^verbatim>\<open>call_agent_async\<close> yields
  one response for each chunk; the text of the \<open>i\<close>-th response is the concatenation of
  the texts of the chunks up to and including the \<open>i\<close>-th (the whole text so far, not the
  delta), so each text is the one before followed by the chunk's text: the sequence of
  texts grows by concatenation and never shrinks or restarts. It grows strictly where
  every chunk carries text; a chunk whose text is absent or empty (\<^verbatim>\<open>responseChunk.text || ""\<close>)
  yields a response with the text of the one before.
\<close>

theorem snapshots_accumulate:
  assumes "providerAnswer pv r sid userInput att = ResultStream chunks e"
  shows "length (fst (fst (call_agent_async pv r sid userInput att))) = length chunks \<and>
    (\<forall>i. i < length chunks \<longrightarrow>
       text_resp (fst (fst (call_agent_async pv r sid userInput att)) ! i) =
         concat (map textOf (take (Suc i) chunks))) \<and>
    (\<forall>i. Suc i < length chunks \<longrightarrow>
       text_resp (fst (fst (call_agent_async pv r sid userInput att)) ! Suc i) =
         text_resp (fst (fst (call_agent_async pv r sid userInput att)) ! i) @
           textOf (chunks ! Suc i)) \<and>
    successively prefix (map text_resp (fst (fst (call_agent_async pv r sid userInput att)))) \<and>
    ((\<forall>c \<in> set chunks. textOf c \<noteq> []) \<longrightarrow>
       successively strict_prefix
         (map text_resp (fst (fst (call_agent_async pv r sid userInput att)))))"
proof -
  let ?ys = "fst (fst (call_agent_async pv r sid userInput att))"
  have ys: "?ys = yields [] [] chunks"
    using call_agent_async_yields [OF assms] by simp
  have len: "length ?ys = length chunks"
    by (simp add: ys length_yields)
  have nth: "text_resp (?ys ! i) = concat (map textOf (take (Suc i) chunks))"
    if "i < length chunks" for i
    using that by (simp add: ys yields_text_nth)
  have step: "text_resp (?ys ! Suc i) = text_resp (?ys ! i) @ textOf (chunks ! Suc i)"
    if "Suc i < length chunks" for i
    using that nth [of i] nth [of "Suc i"] by (simp add: take_Suc_concat)
  have grow: "successively prefix (map text_resp ?ys)"
    unfolding successively_conv_nth using step len by (auto simp: prefix_def)
  have strict: "successively strict_prefix (map text_resp ?ys)"
    if "\<forall>c \<in> set chunks. textOf c \<noteq> []"
    unfolding successively_conv_nth
  proof (intro allI impI)
    fix i
    assume "Suc i < length (map text_resp ?ys)"
    then have i: "Suc i < length chunks" by (simp add: len)
    with that have "textOf (chunks ! Suc i) \<noteq> []" by simp
    with step [OF i] i len show "strict_prefix (map text_resp ?ys ! i) (map text_resp ?ys ! Suc i)"
      by (auto simp: strict_prefix_def prefix_def)
  qed
  from len nth step grow strict show ?thesis by blast
qed


theorem snapshots_accumulate_witness:
  "providerAnswer
     (answering (ResultStream
        [textChunk (Some ''Hel''), textChunk (Some ''lo ''), textChunk (Some ''World'')]
        EndOfStream))
     newAgentRunner ''s1'' ''ping'' None =
     ResultStream [textChunk (Some ''Hel''), textChunk (Some ''lo ''), textChunk (Some ''World'')]
       EndOfStream \<and>
   list_all (\<lambda>c. textOf c \<noteq> [])
     [textChunk (Some ''Hel''), textChunk (Some ''lo ''), textChunk (Some ''World'')] \<and>
   map text_resp
     (fst (fst (call_agent_async
        (answering (ResultStream
           [textChunk (Some ''Hel''), textChunk (Some ''lo ''), textChunk (Some ''World'')]
           EndOfStream))
        newAgentRunner ''s1'' ''ping'' None))) = [''Hel'', ''Hello '', ''Hello World''] \<and>
   successively strict_prefix
     (map text_resp
        (fst (fst (call_agent_async
           (answering (ResultStream
              [textChunk (Some ''Hel''), textChunk (Some ''lo ''), textChunk (Some ''World'')]
              EndOfStream))
           newAgentRunner ''s1'' ''ping'' None))))"
proof -
  let ?chunks = "[textChunk (Some ''Hel''), textChunk (Some ''lo ''), textChunk (Some ''World'')]"
  let ?pv = "answering (ResultStream ?chunks EndOfStream)"
  let ?ys = "fst (fst (call_agent_async ?pv newAgentRunner ''s1'' ''ping'' None))"
  have a: "providerAnswer ?pv newAgentRunner ''s1'' ''ping'' None = ResultStream ?chunks EndOfStream"
    by (simp add: providerAnswer_def answering_def)
  have t: "list_all (\<lambda>c. textOf c \<noteq> []) ?chunks"
    by (simp add: textOf_def textChunk_def)
  note th = snapshots_accumulate [OF a]
  from th have len: "length ?ys = 3" by simp
  from th have n: "text_resp (?ys ! 0) = ''Hel''" "text_resp (?ys ! 1) = ''Hello ''"
    "text_resp (?ys ! 2) = ''Hello World''"
    by (simp_all add: textOf_def textChunk_def)
  from len obtain y0 y1 y2 where ys: "?ys = [y0, y1, y2]"
    by (auto simp: numeral_3_eq_3 length_Suc_conv)
  from n have m: "map text_resp ?ys = [''Hel'', ''Hello '', ''Hello World'']"
    unfolding ys by simp
  from th t have ss: "successively strict_prefix (map text_resp ?ys)"
    by (simp add: list_all_iff)
  show ?thesis
    by (rule conjI [OF a conjI [OF t conjI [OF m ss]]])
qed

text \<open>
  The growth is not strict for every stream: after a chunk with the text \<open>a\<close>, a chunk
  without text yields a second response with the same text \<open>a\<close>.
\<close>

theorem snapshots_strictly_growing_counterexample:
  "providerAnswer
     (answering (ResultStream [textChunk (Some ''a''), textChunk None] EndOfStream))
     newAgentRunner ''s1'' ''ping'' None =
     ResultStream [textChunk (Some ''a''), textChunk None] EndOfStream \<and>
   map text_resp
     (fst (fst (call_agent_async
        (answering (ResultStream [textChunk (Some ''a''), textChunk None] EndOfStream))
        newAgentRunner ''s1'' ''ping'' None))) = [''a'', ''a''] \<and>
   \<not> successively strict_prefix
     (map text_resp
        (fst (fst (call_agent_async
           (answering (ResultStream [textChunk (Some ''a''), textChunk None] EndOfStream))
           newAgentRunner ''s1'' ''ping'' None))))"
  by (simp add: providerAnswer_def answering_def call_agent_async_def getOrCreateChat_def
      chats_create_def newAgentRunner_def messageContent_def textOf_def textChunk_def
      webChunks_def metadataOf_def Let_def)

lemma citations_yields:
  "i < length chunks \<Longrightarrow>
   citations (yields [] [] chunks ! i) =
     foldl pushIfNew [] (concat (map webChunks (take (Suc i) chunks)))"
  by (simp add: yields_nth citations_def)

lemma present_yields:
  "i < length chunks \<Longrightarrow>
   groundingChunks_resp (yields [] [] chunks ! i) \<noteq> None \<longleftrightarrow>
     concat (map webChunks (take (Suc i) chunks)) \<noteq> []"
  using foldl_pushIfNew_Nil [of "[]" "concat (map webChunks (take (Suc i) chunks))"]
  by (simp add: yields_nth)

lemma web_uri_bind: "web_uri g = Option.bind (web g) uri"
  by (cases "web g") (simp_all add: web_uri_def)

lemma webChunks_web: "g \<in> set (webChunks c) \<Longrightarrow> web g \<noteq> None"
  by (auto simp: webChunks_def split: option.splits)

lemma foldl_pushIfNew_keys:
  "map web_uri (foldl pushIfNew [] ws) = rev (remdups (rev (map web_uri ws)))"
proof (induction ws rule: rev_induct)
  case Nil
  then show ?case by simp
next
  case (snoc w ws)
  let ?d = "foldl pushIfNew [] ws"
  have u: "web_uri ` set ?d = web_uri ` set ws"
    using foldl_pushIfNew_uris [of "[]" ws] by simp
  have "foldl pushIfNew [] (ws @ [w]) = pushIfNew ?d w" by simp
  also have "\<dots> = (if web_uri w \<in> web_uri ` set ws then ?d else ?d @ [w])"
    by (simp only: pushIfNew_if u)
  finally have "map web_uri (foldl pushIfNew [] (ws @ [w])) =
      (if web_uri w \<in> web_uri ` set ws then map web_uri ?d else map web_uri ?d @ [web_uri w])"
    by simp
  with snoc show ?case by simp
qed

lemma citations_first_seen:
  assumes "providerAnswer pv r sid userInput att = ResultStream chunks e"
    and "i < length chunks"
  shows "let resp = fst (fst (call_agent_async pv r sid userInput att)) ! i;
             seen = concat (map webChunks (take (Suc i) chunks))
         in (groundingChunks_resp resp \<noteq> None \<longleftrightarrow> seen \<noteq> []) \<and>
            groundingChunks_resp resp \<noteq> Some [] \<and>
            (\<forall>g \<in> set (citations resp). web g \<noteq> None) \<and>
            distinct (map web_uri (citations resp)) \<and>
            map web_uri (citations resp) = rev (remdups (rev (map web_uri seen))) \<and>
            set (citations resp) \<subseteq> set seen \<and>
            (\<forall>w \<in> set seen.
               length (filter (\<lambda>g. web_uri g = web_uri w) (citations resp)) = 1 \<and>
               find (\<lambda>g. web_uri g = web_uri w) (citations resp) =
                 find (\<lambda>g. web_uri g = web_uri w) seen)"
proof -
  let ?resp = "fst (fst (call_agent_async pv r sid userInput att)) ! i"
  let ?seen = "concat (map webChunks (take (Suc i) chunks))"
  have resp: "?resp = yields [] [] chunks ! i"
    using call_agent_async_yields [OF assms(1)] by simp
  have c: "citations ?resp = foldl pushIfNew [] ?seen"
    using assms(2) by (simp add: resp citations_yields)
  have p: "groundingChunks_resp ?resp \<noteq> None \<longleftrightarrow> ?seen \<noteq> []"
    using assms(2) by (simp only: resp present_yields)
  have ne: "groundingChunks_resp ?resp \<noteq> Some []"
    using assms(2) by (simp add: resp yields_nth)
  have d: "distinct (map web_uri (citations ?resp))"
    by (simp add: c foldl_pushIfNew_distinct)
  have k: "map web_uri (citations ?resp) = rev (remdups (rev (map web_uri ?seen)))"
    by (simp only: c foldl_pushIfNew_keys)
  have s: "set (citations ?resp) \<subseteq> set ?seen"
    using foldl_pushIfNew_subset [of "[]" ?seen] by (simp add: c)
  have w: "\<forall>g \<in> set (citations ?resp). web g \<noteq> None"
    using s by (auto dest: webChunks_web)
  have f: "length (filter (\<lambda>g. web_uri g = web_uri w) (citations ?resp)) = 1 \<and>
      find (\<lambda>g. web_uri g = web_uri w) (citations ?resp) =
        find (\<lambda>g. web_uri g = web_uri w) ?seen"
    if "w \<in> set ?seen" for w
  proof
    have "web_uri w \<in> web_uri ` set (citations ?resp)"
      using that foldl_pushIfNew_uris [of "[]" ?seen] by (simp add: c)
    then obtain g where g: "g \<in> set (citations ?resp)" "web_uri g = web_uri w"
      by (auto simp: image_iff)
    from distinct_count_one [OF d g(1)] g(2)
    show "length (filter (\<lambda>g. web_uri g = web_uri w) (citations ?resp)) = 1" by simp
    show "find (\<lambda>g. web_uri g = web_uri w) (citations ?resp) =
        find (\<lambda>g. web_uri g = web_uri w) ?seen"
      using foldl_pushIfNew_find [of "web_uri w" "[]" ?seen] by (simp add: c)
  qed
  from p ne w d k s f show ?thesis unfolding Let_def by blast
qed

text \<open>
  C2. Let \<open>seen\<close> be the web chunks in the grounding metadata of the chunks up to the
  \<open>i\<close>-th, in stream order, and let the URI of a chunk be its \<^verbatim>\<open>web?.uri\<close>. The
  \<open>i\<close>-th response carries the field \<^verbatim>\<open>groundingChunks\<close> exactly when \<open>seen\<close> is not
  empty, and never as an empty list. Its citations are web chunks of \<open>seen\<close>; their
  URIs are pairwise distinct and are the URIs of \<open>seen\<close>, each once, in the order in
  which they first appear; and for every web chunk of \<open>seen\<close> exactly one citation has
  its URI, namely the first chunk of \<open>seen\<close> with that URI, so the title seen first is
  kept and a later duplicate is dropped, also across chunks. The last response is the
  case \<open>i = length chunks - 1\<close>.
\<close>

theorem citations_deduplicated_by_uri:
  assumes "providerAnswer pv r sid userInput att = ResultStream chunks e"
    and "i < length chunks"
  shows "let resp = fst (fst (call_agent_async pv r sid userInput att)) ! i;
             seen = concat (map webChunks (take (Suc i) chunks))
         in (groundingChunks_resp resp \<noteq> None \<longleftrightarrow> seen \<noteq> []) \<and>
            groundingChunks_resp resp \<noteq> Some [] \<and>
            (\<forall>g \<in> set (citations resp). web g \<noteq> None) \<and>
            distinct (map (\<lambda>g. Option.bind (web g) uri) (citations resp)) \<and>
            map (\<lambda>g. Option.bind (web g) uri) (citations resp) =
              rev (remdups (rev (map (\<lambda>g. Option.bind (web g) uri) seen))) \<and>
            set (citations resp) \<subseteq> set seen \<and>
            (\<forall>w \<in> set seen.
               length (filter (\<lambda>g. Option.bind (web g) uri = Option.bind (web w) uri)
                 (citations resp)) = 1 \<and>
               find (\<lambda>g. Option.bind (web g) uri = Option.bind (web w) uri) (citations resp) =
                 find (\<lambda>g. Option.bind (web g) uri = Option.bind (web w) uri) seen)"
  using citations_first_seen [OF assms] unfolding web_uri_bind .

theorem citations_deduplicated_by_uri_witness:
  "providerAnswer (answering (ResultStream cited EndOfStream)) newAgentRunner ''s1'' ''ping'' None =
     ResultStream cited EndOfStream \<and>
   (0::nat) < length cited \<and>
   (3::nat) < length cited \<and>
   concat (map webChunks (take (Suc 0) cited)) = [] \<and>
   concat (map webChunks (take (Suc 3) cited)) =
     [citing ''u2'' ''other'', citing ''u1'' ''first'', citing ''u1'' ''second'',
      citing ''u2'' ''again''] \<and>
   groundingChunks_resp
     (fst (fst (call_agent_async (answering (ResultStream cited EndOfStream))
        newAgentRunner ''s1'' ''ping'' None)) ! 0) = None \<and>
   groundingChunks_resp
     (fst (fst (call_agent_async (answering (ResultStream cited EndOfStream))
        newAgentRunner ''s1'' ''ping'' None)) ! 3) =
     Some [\<lparr>web = Some \<lparr>uri = Some ''u2'', title = Some ''other''\<rparr>\<rparr>,
           \<lparr>web = Some \<lparr>uri = Some ''u1'', title = Some ''first''\<rparr>\<rparr>]"
proof -
  let ?pv = "answering (ResultStream cited EndOfStream)"
  let ?ys = "fst (fst (call_agent_async ?pv newAgentRunner ''s1'' ''ping'' None))"
  let ?seen = "[citing ''u2'' ''other'', citing ''u1'' ''first'', citing ''u1'' ''second'',
      citing ''u2'' ''again'']"
  have a: "providerAnswer ?pv newAgentRunner ''s1'' ''ping'' None = ResultStream cited EndOfStream"
    by (simp add: providerAnswer_def answering_def)
  have i0: "(0::nat) < length cited" and i3: "(3::nat) < length cited"
    by (simp_all add: cited_def)
  have seen0: "concat (map webChunks (take (Suc 0) cited)) = []"
    by (simp add: cited_def webChunks_def metadataOf_def textChunk_def)
  have seen3: "concat (map webChunks (take (Suc 3) cited)) = ?seen"
    by (simp add: cited_def webChunks_def metadataOf_def textChunk_def groundedChunk_def
        citing_def)
  have r0: "groundingChunks_resp (?ys ! 0) = None"
    using citations_deduplicated_by_uri [OF a i0] unfolding Let_def seen0 by simp
  have th: "(groundingChunks_resp (?ys ! 3) \<noteq> None \<longleftrightarrow> ?seen \<noteq> []) \<and>
      groundingChunks_resp (?ys ! 3) \<noteq> Some [] \<and>
      (\<forall>g \<in> set (citations (?ys ! 3)). web g \<noteq> None) \<and>
      distinct (map (\<lambda>g. Option.bind (web g) uri) (citations (?ys ! 3))) \<and>
      map (\<lambda>g. Option.bind (web g) uri) (citations (?ys ! 3)) =
        rev (remdups (rev (map (\<lambda>g. Option.bind (web g) uri) ?seen))) \<and>
      set (citations (?ys ! 3)) \<subseteq> set ?seen \<and>
      (\<forall>w \<in> set ?seen.
         length (filter (\<lambda>g. Option.bind (web g) uri = Option.bind (web w) uri)
           (citations (?ys ! 3))) = 1 \<and>
         find (\<lambda>g. Option.bind (web g) uri = Option.bind (web w) uri) (citations (?ys ! 3)) =
           find (\<lambda>g. Option.bind (web g) uri = Option.bind (web w) uri) ?seen)"
    using citations_deduplicated_by_uri [OF a i3] unfolding Let_def seen3 .
  from th have keys: "map (\<lambda>g. Option.bind (web g) uri) (citations (?ys ! 3)) =
      [Some ''u2'', Some ''u1'']"
    by (simp add: citing_def)
  then obtain g1 g2 where c: "citations (?ys ! 3) = [g1, g2]"
    and k1: "Option.bind (web g1) uri = Some ''u2''"
    and k2: "Option.bind (web g2) uri = Some ''u1''"
    by (auto simp: map_eq_Cons_conv)
  from th have "find (\<lambda>g. Option.bind (web g) uri = Option.bind (web (citing ''u2'' ''again'')) uri)
        (citations (?ys ! 3)) =
      find (\<lambda>g. Option.bind (web g) uri = Option.bind (web (citing ''u2'' ''again'')) uri) ?seen"
    by simp
  with k1 have g1: "g1 = citing ''u2'' ''other''"
    by (simp add: c citing_def)
  from th have "find (\<lambda>g. Option.bind (web g) uri = Option.bind (web (citing ''u1'' ''second'')) uri)
        (citations (?ys ! 3)) =
      find (\<lambda>g. Option.bind (web g) uri = Option.bind (web (citing ''u1'' ''second'')) uri) ?seen"
    by simp
  with k1 k2 have g2: "g2 = citing ''u1'' ''first''"
    by (simp add: c citing_def)
  from c g1 g2 have r3: "groundingChunks_resp (?ys ! 3) =
      Some [\<lparr>web = Some \<lparr>uri = Some ''u2'', title = Some ''other''\<rparr>\<rparr>,
            \<lparr>web = Some \<lparr>uri = Some ''u1'', title = Some ''first''\<rparr>\<rparr>]"
    by (cases "groundingChunks_resp (?ys ! 3)") (simp_all add: citations_def citing_def)
  show ?thesis
    by (rule conjI [OF a conjI [OF i0 conjI [OF i3 conjI [OF seen0 conjI [OF seen3
          conjI [OF r0 r3]]]]]])
qed

lemma cached_below_new: "cached_below newAgentRunner"
  by (simp add: cached_below_def newAgentRunner_def)

lemma cached_below_getOrCreateChat:
  assumes "cached_below r"
  shows "cached_below (snd (getOrCreateChat instr r sid))"
proof (cases "chatSessions r sid")
  case (Some chat)
  with assms show ?thesis by (simp add: getOrCreateChat_known)
next
  case None
  have "chatId chat < Suc (chatsCreated (client r))"
    if "chat \<in> ran ((chatSessions r)(sid \<mapsto> fst (chats_create instr (client r))))" for chat
  proof -
    from that obtain k where
      "((chatSessions r)(sid \<mapsto> fst (chats_create instr (client r)))) k = Some chat"
      by (auto simp: ran_def)
    then have "chat = fst (chats_create instr (client r)) \<or> chat \<in> ran (chatSessions r)"
      by (auto simp: ran_def split: if_splits)
    with assms show ?thesis
      by (auto simp: cached_below_def chats_create_def less_Suc_eq)
  qed
  with None show ?thesis
    by (simp add: getOrCreateChat_unknown cached_below_def chats_create_def)
qed

lemma cached_below_call_agent_async:
  assumes "cached_below r"
  shows "cached_below (snd (call_agent_async pv r sid userInput att))"
  using cached_below_getOrCreateChat [OF assms, of "instruction pv" sid]
  by (simp add: call_agent_async_runner cached_below_def)

lemma cached_below_resetSession:
  assumes "cached_below r"
  shows "cached_below (resetSession r sid)"
proof -
  have "ran ((chatSessions r)(sid := None)) \<subseteq> ran (chatSessions r)"
    by (auto simp: ran_def split: if_splits)
  with assms show ?thesis
    by (auto simp: cached_below_def resetSession_def)
qed

text \<open>
  C8. The cache maps a session identifier to at most one handle. \<^verbatim>\<open>getOrCreateChat\<close>
  returns the cached handle and leaves the runner unchanged when the identifier has one;
  it creates a handle (one \<^verbatim>\<open>chats.create\<close> call) and caches it only when the
  identifier has none; it always returns a handle, the one cached under the identifier
  afterwards, so a second call returns the same handle and changes nothing.
  \<^verbatim>\<open>resetSession\<close> removes the identifier's handle and no other, and creates nothing;
  the next \<^verbatim>\<open>getOrCreateChat\<close> then behaves as for an identifier without handle: it
  creates a new handle, and a newly created handle is none of the handles cached before.
\<close>

theorem one_handle_per_session:
  "(chatSessions r sid = Some chat \<longrightarrow> getOrCreateChat instr r sid = (Some chat, r)) \<and>
   (chatSessions r sid = None \<longrightarrow>
      fst (getOrCreateChat instr r sid) = Some (fst (chats_create instr (client r))) \<and>
      chatSessions (snd (getOrCreateChat instr r sid)) =
        (chatSessions r)(sid \<mapsto> fst (chats_create instr (client r))) \<and>
      chatsCreated (client (snd (getOrCreateChat instr r sid))) = Suc (chatsCreated (client r))) \<and>
   fst (getOrCreateChat instr r sid) \<noteq> None \<and>
   chatSessions (snd (getOrCreateChat instr r sid)) sid = fst (getOrCreateChat instr r sid) \<and>
   getOrCreateChat instr (snd (getOrCreateChat instr r sid)) sid =
     (fst (getOrCreateChat instr r sid), snd (getOrCreateChat instr r sid)) \<and>
   chatSessions (resetSession r sid) sid = None \<and>
   (sid' \<noteq> sid \<longrightarrow> chatSessions (resetSession r sid) sid' = chatSessions r sid') \<and>
   client (resetSession r sid) = client r \<and>
   fst (getOrCreateChat instr (resetSession r sid) sid) =
     Some (fst (chats_create instr (client r))) \<and>
   chatsCreated (client (snd (getOrCreateChat instr (resetSession r sid) sid))) =
     Suc (chatsCreated (client r)) \<and>
   (cached_below r \<longrightarrow> fst (chats_create instr (client r)) \<notin> ran (chatSessions r))"
proof -
  note known = getOrCreateChat_known [of r sid _ instr]
  note unknown = getOrCreateChat_unknown [of r sid instr]
  have cached: "chatSessions (snd (getOrCreateChat instr r sid)) sid =
      fst (getOrCreateChat instr r sid)"
    by (simp add: getOrCreateChat_def Let_def)
  have some: "fst (getOrCreateChat instr r sid) \<noteq> None"
    by (simp add: getOrCreateChat_handle)
  obtain chat1 where c1: "chatSessions (snd (getOrCreateChat instr r sid)) sid = Some chat1"
    using cached some by (cases "fst (getOrCreateChat instr r sid)") auto
  have again: "getOrCreateChat instr (snd (getOrCreateChat instr r sid)) sid =
      (fst (getOrCreateChat instr r sid), snd (getOrCreateChat instr r sid))"
    using getOrCreateChat_known [OF c1, of instr] c1 cached by simp
  have reset: "chatSessions (resetSession r sid) sid = None"
    by (simp add: resetSession_def)
  have after: "getOrCreateChat instr (resetSession r sid) sid =
      (Some (fst (chats_create instr (client r))),
       r\<lparr>client := snd (chats_create instr (client r)),
         chatSessions := (chatSessions r)(sid \<mapsto> fst (chats_create instr (client r)))\<rparr>)"
    using getOrCreateChat_unknown [OF reset, of instr] by (simp add: resetSession_def)
  have fresh: "fst (chats_create instr (client r)) \<notin> ran (chatSessions r)"
    if "cached_below r"
  proof
    assume "fst (chats_create instr (client r)) \<in> ran (chatSessions r)"
    with that have "chatId (fst (chats_create instr (client r))) < chatsCreated (client r)"
      by (simp add: cached_below_def)
    then show False
      by (simp add: chats_create_def)
  qed
  have other: "chatSessions (resetSession r sid) sid' = chatSessions r sid'" if "sid' \<noteq> sid"
    using that by (simp add: resetSession_def)
  have cl: "client (resetSession r sid) = client r"
    by (simp add: resetSession_def)
  show ?thesis
    using known unknown cached some again reset fresh other cl
    by (simp add: after chats_create_def)
qed

theorem one_handle_per_session_witness:
  "chatSessions newAgentRunner ''s1'' = None \<and>
   map_option chatId (fst (getOrCreateChat ''be brief'' newAgentRunner ''s1'')) = Some 0 \<and>
   chatsCreated (client (snd (getOrCreateChat ''be brief'' newAgentRunner ''s1''))) = 1 \<and>
   chatSessions (snd (getOrCreateChat ''be brief'' newAgentRunner ''s1'')) ''s1'' =
     Some (fst (chats_create ''be brief'' (client newAgentRunner))) \<and>
   getOrCreateChat ''be brief'' (snd (getOrCreateChat ''be brief'' newAgentRunner ''s1'')) ''s1'' =
     (Some (fst (chats_create ''be brief'' (client newAgentRunner))),
      snd (getOrCreateChat ''be brief'' newAgentRunner ''s1'')) \<and>
   ''s2'' \<noteq> ''s1'' \<and>
   chatSessions (resetSession (snd (getOrCreateChat ''be brief'' newAgentRunner ''s1'')) ''s1'')
     ''s2'' = None \<and>
   cached_below (snd (getOrCreateChat ''be brief'' newAgentRunner ''s1'')) \<and>
   map_option chatId (fst (getOrCreateChat ''be brief''
     (resetSession (snd (getOrCreateChat ''be brief'' newAgentRunner ''s1'')) ''s1'') ''s1'')) =
     Some 1 \<and>
   fst (chats_create ''be brief'' (client (snd (getOrCreateChat ''be brief'' newAgentRunner ''s1''))))
     \<notin> ran (chatSessions (snd (getOrCreateChat ''be brief'' newAgentRunner ''s1'')))"
proof -
  let ?r1 = "snd (getOrCreateChat ''be brief'' newAgentRunner ''s1'')"
  let ?c1 = "fst (chats_create ''be brief'' (client newAgentRunner))"
  have n: "chatSessions newAgentRunner ''s1'' = None"
    by (simp add: newAgentRunner_def)
  note first = one_handle_per_session [of newAgentRunner "''s1''" ?c1 "''be brief''" "''s2''"]
  from first n have f: "fst (getOrCreateChat ''be brief'' newAgentRunner ''s1'') = Some ?c1"
    by blast
  from first f have c: "chatSessions ?r1 ''s1'' = Some ?c1" by simp
  have d: "''s2'' \<noteq> ''s1''" by simp
  have b: "cached_below ?r1"
    by (intro cached_below_getOrCreateChat cached_below_new)
  note second = one_handle_per_session [of ?r1 "''s1''" ?c1 "''be brief''" "''s2''"]
  have c0: "map_option chatId (fst (getOrCreateChat ''be brief'' newAgentRunner ''s1'')) = Some 0"
    unfolding f by (simp add: chats_create_def newAgentRunner_def)
  have c1: "chatsCreated (client ?r1) = 1"
    using first n by (simp add: newAgentRunner_def)
  have other: "chatSessions ?r1 ''s2'' = None"
    using first n by (simp add: newAgentRunner_def)
  have again: "getOrCreateChat ''be brief'' ?r1 ''s1'' = (Some ?c1, ?r1)"
    using second c by blast
  have r2: "chatSessions (resetSession ?r1 ''s1'') ''s2'' = None"
    using second d other by simp
  have new: "map_option chatId
      (fst (getOrCreateChat ''be brief'' (resetSession ?r1 ''s1'') ''s1'')) = Some 1"
    using second c1 by (simp add: chats_create_def)
  have fresh: "fst (chats_create ''be brief'' (client ?r1)) \<notin> ran (chatSessions ?r1)"
    using second b by blast
  show ?thesis
    by (rule conjI [OF n conjI [OF c0 conjI [OF c1 conjI [OF c conjI [OF again
          conjI [OF d conjI [OF r2 conjI [OF b conjI [OF new fresh]]]]]]]]])
qed

section \<open>Attachment Encoder and composer: proofs\<close>

lemma MAX_FILE_SIZE_BYTES_value: "MAX_FILE_SIZE_BYTES = 5242880"
  by (simp add: MAX_FILE_SIZE_BYTES_def MAX_FILE_SIZE_MB_def)

lemma handleFileSelect_accept:
  "size_file file \<le> MAX_FILE_SIZE_BYTES \<Longrightarrow>
   handleFileSelect st (Some (file # others)) = (st, Some file)"
  by (simp add: handleFileSelect_def)

lemma handleFileSelect_reject:
  "size_file file > MAX_FILE_SIZE_BYTES \<Longrightarrow>
   handleFileSelect st (Some (file # others)) =
     (st\<lparr>alerts := alerts st @ [TOO_LARGE_NOTICE],
         fileInputValue := (case fileInputValue st of None \<Rightarrow> None | Some v \<Rightarrow> Some [])\<rparr>,
      None)"
  by (simp add: handleFileSelect_def)

text \<open>
  C4. The limit is 5 MiB. A selected file of at most that size, so also one of exactly
  that size, passes the check: the state is unchanged and the read of the file is
  started, and when the read ends the attachment staged is the one made from that file.
  A file one byte over the limit, as every larger file, is rejected: no read is started,
  so nothing is staged from it; the attachment staged before stays in place, and so does
  the typed text; the file input, if the ref is attached, is reset to the empty string;
  one notice is shown. The handler returns normally, and the component goes on to take
  the next file.
\<close>

theorem file_size_threshold:
  "MAX_FILE_SIZE_BYTES = 5 * 1024 * 1024 \<and>
   (size_file file \<le> MAX_FILE_SIZE_BYTES \<longrightarrow>
      handleFileSelect st (Some (file # others)) = (st, Some file)) \<and>
   (size_file file = MAX_FILE_SIZE_BYTES \<longrightarrow>
      handleFileSelect st (Some (file # others)) = (st, Some file)) \<and>
   onloadend st file (Some dataUrl) =
     Inr (st\<lparr>attachment_staged :=
              Some \<lparr>base64 = index (split_comma dataUrl) 1, mimeType = type_file file\<rparr>\<rparr>) \<and>
   (size_file file = MAX_FILE_SIZE_BYTES + 1 \<or> size_file file > MAX_FILE_SIZE_BYTES \<longrightarrow>
      snd (handleFileSelect st (Some (file # others))) = None \<and>
      attachment_staged (fst (handleFileSelect st (Some (file # others)))) = attachment_staged st \<and>
      input (fst (handleFileSelect st (Some (file # others)))) = input st \<and>
      alerts (fst (handleFileSelect st (Some (file # others)))) = alerts st @ [TOO_LARGE_NOTICE] \<and>
      (fileInputValue st \<noteq> None \<longrightarrow>
         fileInputValue (fst (handleFileSelect st (Some (file # others)))) = Some []) \<and>
      (fileInputValue st = None \<longrightarrow>
         fileInputValue (fst (handleFileSelect st (Some (file # others)))) = None) \<and>
      (size_file next \<le> MAX_FILE_SIZE_BYTES \<longrightarrow>
         handleFileSelect (fst (handleFileSelect st (Some (file # others)))) (Some [next]) =
           (fst (handleFileSelect st (Some (file # others))), Some next)))"
proof -
  have over: "size_file file > MAX_FILE_SIZE_BYTES"
    if "size_file file = MAX_FILE_SIZE_BYTES + 1 \<or> size_file file > MAX_FILE_SIZE_BYTES"
    using that by auto
  show ?thesis
    using handleFileSelect_reject [OF over, of st others]
    by (auto simp: handleFileSelect_accept MAX_FILE_SIZE_BYTES_value onloadend_def
        split: option.splits)
qed

theorem file_size_threshold_witness:
  "size_file \<lparr>size_file = 5242880, type_file = ''image/png''\<rparr> = MAX_FILE_SIZE_BYTES \<and>
   handleFileSelect composer0 (Some [\<lparr>size_file = 5242880, type_file = ''image/png''\<rparr>]) =
     (composer0, Some \<lparr>size_file = 5242880, type_file = ''image/png''\<rparr>) \<and>
   onloadend composer0 \<lparr>size_file = 5242880, type_file = ''image/png''\<rparr>
       (Some ''data:image/png;base64,REVG'') =
     Inr (composer0\<lparr>attachment_staged :=
            Some \<lparr>base64 = Some ''REVG'', mimeType = ''image/png''\<rparr>\<rparr>) \<and>
   size_file \<lparr>size_file = 5242881, type_file = ''image/png''\<rparr> = MAX_FILE_SIZE_BYTES + 1 \<and>
   fileInputValue composer0 \<noteq> None \<and>
   handleFileSelect composer0 (Some [\<lparr>size_file = 5242881, type_file = ''image/png''\<rparr>]) =
     (composer0\<lparr>alerts := [TOO_LARGE_NOTICE], fileInputValue := Some []\<rparr>, None) \<and>
   handleFileSelect (composer0\<lparr>alerts := [TOO_LARGE_NOTICE], fileInputValue := Some []\<rparr>)
       (Some [\<lparr>size_file = 5242880, type_file = ''image/png''\<rparr>]) =
     (composer0\<lparr>alerts := [TOO_LARGE_NOTICE], fileInputValue := Some []\<rparr>,
      Some \<lparr>size_file = 5242880, type_file = ''image/png''\<rparr>) \<and>
   fileInputValue (composer0\<lparr>fileInputValue := None\<rparr>) = None \<and>
   fileInputValue
     (fst (handleFileSelect (composer0\<lparr>fileInputValue := None\<rparr>)
        (Some [\<lparr>size_file = 5242881, type_file = ''image/png''\<rparr>]))) = None"
proof -
  let ?at = "\<lparr>size_file = 5242880, type_file = ''image/png''\<rparr>"
  let ?over = "\<lparr>size_file = 5242881, type_file = ''image/png''\<rparr>"
  have a: "size_file ?at = MAX_FILE_SIZE_BYTES"
    by (simp add: MAX_FILE_SIZE_BYTES_def MAX_FILE_SIZE_MB_def)
  have b: "size_file ?over = MAX_FILE_SIZE_BYTES + 1"
    by (simp add: MAX_FILE_SIZE_BYTES_def MAX_FILE_SIZE_MB_def)
  have c: "fileInputValue composer0 \<noteq> None"
    by (simp add: composer0_def)
  note acc = file_size_threshold [of ?at composer0 "[]" "''data:image/png;base64,REVG''"]
  note rej = file_size_threshold [of ?over composer0 "[]" _ ?at]
  have s: "index (split_comma ''data:image/png;base64,REVG'') 1 = Some ''REVG''"
    by simp
  have a1: "handleFileSelect composer0 (Some [?at]) = (composer0, Some ?at)"
    using acc a by blast
  have a2: "onloadend composer0 ?at (Some ''data:image/png;base64,REVG'') =
      Inr (composer0\<lparr>attachment_staged :=
            Some \<lparr>base64 = Some ''REVG'', mimeType = ''image/png''\<rparr>\<rparr>)"
    using acc [THEN conjunct2, THEN conjunct2, THEN conjunct2, THEN conjunct1]
    by (simp only: s File.simps)
  have r: "handleFileSelect composer0 (Some [?over]) =
      (composer0\<lparr>alerts := [TOO_LARGE_NOTICE], fileInputValue := Some []\<rparr>, None)"
    using rej b c
    by (intro prod_eqI) (simp_all add: composer0_def)
  have "size_file ?at \<le> MAX_FILE_SIZE_BYTES" using a by simp
  with rej b have "handleFileSelect (fst (handleFileSelect composer0 (Some [?over]))) (Some [?at]) =
      (fst (handleFileSelect composer0 (Some [?over])), Some ?at)"
    by blast
  then have n: "handleFileSelect
       (composer0\<lparr>alerts := [TOO_LARGE_NOTICE], fileInputValue := Some []\<rparr>) (Some [?at]) =
     (composer0\<lparr>alerts := [TOO_LARGE_NOTICE], fileInputValue := Some []\<rparr>, Some ?at)"
    unfolding r by simp
  have u: "fileInputValue (composer0\<lparr>fileInputValue := None\<rparr>) = None" by simp
  have v: "fileInputValue
      (fst (handleFileSelect (composer0\<lparr>fileInputValue := None\<rparr>) (Some [?over]))) = None"
    using file_size_threshold [of ?over "composer0\<lparr>fileInputValue := None\<rparr>" "[]"] b u
    by blast
  show ?thesis
    by (rule conjI [OF a conjI [OF a1 conjI [OF a2 conjI [OF b conjI [OF c conjI [OF r
          conjI [OF n conjI [OF u v]]]]]]]])
qed

section \<open>Conversation Controller: proofs\<close>

lemma role_lastAssistantMsg [simp]: "role (lastAssistantMsg m stream) = role m"
  by (simp add: lastAssistantMsg_def)

lemma lastAssistantMsg_Cons:
  "lastAssistantMsg m (x # rest) =
     lastAssistantMsg (m\<lparr>content := text_resp x, groundingChunks := groundingChunks_resp x\<rparr>) rest"
  by (simp add: lastAssistantMsg_def)

lemma spliceAssistant_replace:
  "messages st = pre @ [a] \<Longrightarrow> role a \<noteq> USER \<Longrightarrow>
   spliceAssistant cur st = Inr (st\<lparr>messages := pre @ [cur]\<rparr>)"
  by (simp add: spliceAssistant_def)

lemma spliceAssistant_append:
  "messages st = pre @ [u] \<Longrightarrow> role u = USER \<Longrightarrow>
   spliceAssistant cur st = Inr (st\<lparr>messages := pre @ [u, cur]\<rparr>)"
  by (simp add: spliceAssistant_def)

lemma consume_later:
  assumes "messages st = pre @ [a]" and "role a \<noteq> USER" and "role cur \<noteq> USER"
  shows "\<exists>sets. consume cur False st stream =
           (True, lastAssistantMsg cur stream,
            (if stream = [] then st else st\<lparr>messages := pre @ [lastAssistantMsg cur stream]\<rparr>),
            sets) \<and>
         length sets = length stream \<and> (\<forall>s \<in> set sets. status s = status st)"
  using assms
proof (induction stream arbitrary: cur st a)
  case Nil
  then show ?case by (simp add: lastAssistantMsg_def)
next
  case (Cons x rest)
  let ?cur = "cur\<lparr>content := text_resp x, groundingChunks := groundingChunks_resp x\<rparr>"
  let ?st2 = "st\<lparr>messages := pre @ [?cur]\<rparr>"
  have sp: "spliceAssistant ?cur st = Inr ?st2"
    using Cons.prems(1,2) by (rule spliceAssistant_replace)
  have "messages ?st2 = pre @ [?cur]" "role ?cur \<noteq> USER"
    using Cons.prems(3) by simp_all
  from Cons.IH [OF this(1) this(2) this(2)]
  obtain sets where r: "consume ?cur False ?st2 rest =
      (True, lastAssistantMsg ?cur rest,
       (if rest = [] then ?st2 else ?st2\<lparr>messages := pre @ [lastAssistantMsg ?cur rest]\<rparr>),
       sets)"
    and l: "length sets = length rest" and s: "\<forall>s \<in> set sets. status s = status ?st2"
    by blast
  have "consume cur False st (x # rest) =
      (True, lastAssistantMsg cur (x # rest),
       st\<lparr>messages := pre @ [lastAssistantMsg cur (x # rest)]\<rparr>, ?st2 # sets)"
    using l by (cases "rest = []") (simp_all add: sp r lastAssistantMsg_def Let_def)
  with l s show ?case by simp
qed

lemma consume_first:
  assumes "messages st = pre @ [u]" and "role u = USER" and "role cur \<noteq> USER"
  shows "\<exists>sets. consume cur True st stream =
           (True, lastAssistantMsg cur stream,
            (if stream = [] then st
             else st\<lparr>messages := pre @ [u, lastAssistantMsg cur stream], status := streaming\<rparr>),
            sets) \<and>
         (sets = [] \<longleftrightarrow> stream = []) \<and> (\<forall>s \<in> set sets. status s = streaming)"
proof (cases stream)
  case Nil
  then show ?thesis by (simp add: lastAssistantMsg_def)
next
  case (Cons x rest)
  let ?cur = "cur\<lparr>content := text_resp x, groundingChunks := groundingChunks_resp x\<rparr>"
  let ?st1 = "st\<lparr>status := streaming\<rparr>"
  let ?st2 = "?st1\<lparr>messages := pre @ [u, ?cur]\<rparr>"
  have sp: "spliceAssistant ?cur ?st1 = Inr ?st2"
    using assms(1,2) by (intro spliceAssistant_append) simp_all
  have "messages ?st2 = (pre @ [u]) @ [?cur]" "role ?cur \<noteq> USER"
    using assms(3) by simp_all
  from consume_later [OF this(1) this(2) this(2), of rest]
  obtain sets where r: "consume ?cur False ?st2 rest =
      (True, lastAssistantMsg ?cur rest,
       (if rest = [] then ?st2
        else ?st2\<lparr>messages := (pre @ [u]) @ [lastAssistantMsg ?cur rest]\<rparr>),
       sets)"
    and l: "length sets = length rest" and s: "\<forall>s \<in> set sets. status s = status ?st2"
    by blast
  have "consume cur True st (x # rest) =
      (True, lastAssistantMsg cur (x # rest),
       st\<lparr>messages := pre @ [u, lastAssistantMsg cur (x # rest)], status := streaming\<rparr>,
       ?st1 # ?st2 # sets)"
    using l by (cases "rest = []") (simp_all add: sp r lastAssistantMsg_def Let_def)
  with s Cons show ?thesis by simp
qed


lemma consume_turn:
  "\<exists>sets. consume (initialAssistantMsg h) True
            (st\<lparr>messages := messages st @ [userMsg h c att], status := thinking\<rparr>) stream =
           (True, lastAssistantMsg (initialAssistantMsg h) stream,
            (if stream = [] then st\<lparr>messages := messages st @ [userMsg h c att], status := thinking\<rparr>
             else st\<lparr>messages := messages st @
                       [userMsg h c att, lastAssistantMsg (initialAssistantMsg h) stream],
                     status := streaming\<rparr>),
            sets) \<and>
         (sets = [] \<longleftrightarrow> stream = []) \<and> (\<forall>s \<in> set sets. status s = streaming)"
proof -
  let ?st1 = "st\<lparr>messages := messages st @ [userMsg h c att], status := thinking\<rparr>"
  have "messages ?st1 = messages st @ [userMsg h c att]" by simp
  moreover have "role (userMsg h c att) = USER" by (simp add: userMsg_def)
  moreover have "role (initialAssistantMsg h) \<noteq> USER" by (simp add: initialAssistantMsg_def)
  ultimately obtain sets where
    "consume (initialAssistantMsg h) True ?st1 stream =
       (True, lastAssistantMsg (initialAssistantMsg h) stream,
        (if stream = [] then ?st1
         else ?st1\<lparr>messages := messages st @
                   [userMsg h c att, lastAssistantMsg (initialAssistantMsg h) stream],
                 status := streaming\<rparr>),
        sets)"
    "sets = [] \<longleftrightarrow> stream = []" "\<forall>s \<in> set sets. status s = streaming"
    using consume_first [of ?st1 "messages st" "userMsg h c att" "initialAssistantMsg h" stream]
    by blast
  then show ?thesis by (intro exI [of _ sets]) simp
qed

lemma handleSendMessage_returned:
  assumes "sessionId (sessionState app) \<noteq> []"
    and "fst (call_agent_async pv (agentRunner app) (sessionId (sessionState app)) c att) =
           (stream, Returned)"
  shows "\<exists>sets. (sets = [] \<longleftrightarrow> stream = []) \<and> (\<forall>s \<in> set sets. status s = streaming) \<and>
    handleSendMessage pv h app c att =
      (\<lparr>sessionState = (sessionState app)
          \<lparr>messages := messages (sessionState app) @ userMsg h c att #
             (if stream = [] then [] else [lastAssistantMsg (initialAssistantMsg h) stream]),
           status := idle\<rparr>,
        sessionService =
          addMessage (addMessage (sessionService app) (sessionId (sessionState app))
            (userMsg h c att)) (sessionId (sessionState app))
            (lastAssistantMsg (initialAssistantMsg h) stream),
        agentRunner =
          snd (call_agent_async pv (agentRunner app) (sessionId (sessionState app)) c att)\<rparr>,
       (sessionState app)\<lparr>messages := messages (sessionState app) @ [userMsg h c att],
                          status := thinking\<rparr> #
       sets @
       [(sessionState app)
          \<lparr>messages := messages (sessionState app) @ userMsg h c att #
             (if stream = [] then [] else [lastAssistantMsg (initialAssistantMsg h) stream]),
           status := idle\<rparr>])"
proof -
  obtain sets where
    c: "consume (initialAssistantMsg h) True
         ((sessionState app)\<lparr>messages := messages (sessionState app) @ [userMsg h c att],
                            status := thinking\<rparr>) stream =
       (True, lastAssistantMsg (initialAssistantMsg h) stream,
        (if stream = []
         then (sessionState app)\<lparr>messages := messages (sessionState app) @ [userMsg h c att],
                                 status := thinking\<rparr>
         else (sessionState app)\<lparr>messages := messages (sessionState app) @
                   [userMsg h c att, lastAssistantMsg (initialAssistantMsg h) stream],
                 status := streaming\<rparr>),
        sets)"
    and e: "sets = [] \<longleftrightarrow> stream = []" and s: "\<forall>s \<in> set sets. status s = streaming"
    using consume_turn [of h "sessionState app" c att stream] by blast
  obtain r1 where
    r: "call_agent_async pv (agentRunner app) (sessionId (sessionState app)) c att =
          ((stream, Returned), r1)"
    using assms(2) by (cases "call_agent_async pv (agentRunner app) (sessionId (sessionState app)) c att") simp
  have "handleSendMessage pv h app c att =
      (\<lparr>sessionState = (sessionState app)
          \<lparr>messages := messages (sessionState app) @ userMsg h c att #
             (if stream = [] then [] else [lastAssistantMsg (initialAssistantMsg h) stream]),
           status := idle\<rparr>,
        sessionService =
          addMessage (addMessage (sessionService app) (sessionId (sessionState app))
            (userMsg h c att)) (sessionId (sessionState app))
            (lastAssistantMsg (initialAssistantMsg h) stream),
        agentRunner = r1\<rparr>,
       (sessionState app)\<lparr>messages := messages (sessionState app) @ [userMsg h c att],
                          status := thinking\<rparr> #
       sets @
       [(sessionState app)
          \<lparr>messages := messages (sessionState app) @ userMsg h c att #
             (if stream = [] then [] else [lastAssistantMsg (initialAssistantMsg h) stream]),
           status := idle\<rparr>])"
    using assms(1) by (simp add: handleSendMessage_def r c Let_def)
  with e s r show ?thesis by (intro exI [of _ sets]) simp
qed

lemma handleSendMessage_thrown:
  assumes "sessionId (sessionState app) \<noteq> []"
    and "fst (call_agent_async pv (agentRunner app) (sessionId (sessionState app)) c att) =
           (stream, Thrown)"
  shows "\<exists>sets. (sets = [] \<longleftrightarrow> stream = []) \<and> (\<forall>s \<in> set sets. status s = streaming) \<and>
    handleSendMessage pv h app c att =
      (\<lparr>sessionState = (sessionState app)
          \<lparr>messages := messages (sessionState app) @ userMsg h c att #
             (if stream = [] then [] else [lastAssistantMsg (initialAssistantMsg h) stream]) @
             [errorMsg h],
           status := error\<rparr>,
        sessionService =
          addMessage (addMessage (sessionService app) (sessionId (sessionState app))
            (userMsg h c att)) (sessionId (sessionState app)) (errorMsg h),
        agentRunner =
          snd (call_agent_async pv (agentRunner app) (sessionId (sessionState app)) c att)\<rparr>,
       (sessionState app)\<lparr>messages := messages (sessionState app) @ [userMsg h c att],
                          status := thinking\<rparr> #
       sets @
       [(sessionState app)
          \<lparr>messages := messages (sessionState app) @ userMsg h c att #
             (if stream = [] then [] else [lastAssistantMsg (initialAssistantMsg h) stream]) @
             [errorMsg h],
           status := error\<rparr>])"
proof -
  obtain sets where
    c: "consume (initialAssistantMsg h) True
         ((sessionState app)\<lparr>messages := messages (sessionState app) @ [userMsg h c att],
                            status := thinking\<rparr>) stream =
       (True, lastAssistantMsg (initialAssistantMsg h) stream,
        (if stream = []
         then (sessionState app)\<lparr>messages := messages (sessionState app) @ [userMsg h c att],
                                 status := thinking\<rparr>
         else (sessionState app)\<lparr>messages := messages (sessionState app) @
                   [userMsg h c att, lastAssistantMsg (initialAssistantMsg h) stream],
                 status := streaming\<rparr>),
        sets)"
    and e: "sets = [] \<longleftrightarrow> stream = []" and s: "\<forall>s \<in> set sets. status s = streaming"
    using consume_turn [of h "sessionState app" c att stream] by blast
  obtain r1 where
    r: "call_agent_async pv (agentRunner app) (sessionId (sessionState app)) c att =
          ((stream, Thrown), r1)"
    using assms(2) by (cases "call_agent_async pv (agentRunner app) (sessionId (sessionState app)) c att") simp
  have "handleSendMessage pv h app c att =
      (\<lparr>sessionState = (sessionState app)
          \<lparr>messages := messages (sessionState app) @ userMsg h c att #
             (if stream = [] then [] else [lastAssistantMsg (initialAssistantMsg h) stream]) @
             [errorMsg h],
           status := error\<rparr>,
        sessionService =
          addMessage (addMessage (sessionService app) (sessionId (sessionState app))
            (userMsg h c att)) (sessionId (sessionState app)) (errorMsg h),
        agentRunner = r1\<rparr>,
       (sessionState app)\<lparr>messages := messages (sessionState app) @ [userMsg h c att],
                          status := thinking\<rparr> #
       sets @
       [(sessionState app)
          \<lparr>messages := messages (sessionState app) @ userMsg h c att #
             (if stream = [] then [] else [lastAssistantMsg (initialAssistantMsg h) stream]) @
             [errorMsg h],
           status := error\<rparr>])"
    using assms(1) by (simp add: handleSendMessage_def r c Let_def)
  with e s r show ?thesis by (intro exI [of _ sets]) simp
qed


lemma requests_getOrCreateChat:
  "requests (client (snd (getOrCreateChat instr r sid))) = requests (client r)"
  by (cases "chatSessions r sid")
     (simp_all add: getOrCreateChat_known getOrCreateChat_unknown chats_create_def)

lemma requests_call_agent_async:
  "requests (client (snd (call_agent_async pv r sid userInput att))) =
     requests (client r) @
       [(sessionChat (instruction pv) r sid, messageContent userInput att)]"
  by (simp add: call_agent_async_runner requests_getOrCreateChat)

lemma last_yields:
  assumes "chunks \<noteq> []"
  shows "text_resp (last (yields [] [] chunks)) = concat (map textOf chunks)"
proof -
  have "yields [] [] chunks \<noteq> []"
    using assms length_yields [of "[]" "[]" chunks] by auto
  then have "last (yields [] [] chunks) = yields [] [] chunks ! (length chunks - 1)"
    by (simp add: last_conv_nth length_yields)
  with assms show ?thesis by (simp add: yields_text_nth)
qed

lemma getHistory_two:
  "getHistory (addMessage (addMessage sv sid a) sid b) sid = getHistory sv sid @ [a, b]"
  by (simp add: getHistory_addMessage_same)

lemma map_status_const:
  "\<forall>s \<in> set sets. status s = x \<Longrightarrow> map status sets = replicate (length sets) x"
  by (induction sets) simp_all

lemma remdups_adj_run:
  "f \<noteq> x \<Longrightarrow> remdups_adj (x # replicate n x @ [f]) = [x, f]"
  by (induction n) simp_all

lemma status_path:
  assumes "\<forall>s \<in> set sets. status s = streaming" and "f = idle \<or> f = error"
  shows "remdups_adj (thinking # map status sets @ [f]) =
           thinking # (if sets = [] then [] else [streaming]) @ [f]"
proof (cases sets)
  case Nil
  with assms(2) show ?thesis by auto
next
  case (Cons s rest)
  from assms(2) have f: "f \<noteq> streaming" by auto
  have "map status sets = streaming # replicate (length rest) streaming"
    using map_status_const [OF assms(1)] Cons by simp
  with Cons remdups_adj_run [OF f, of "length rest"] show ?thesis by simp
qed

lemma thrown_before_first_chunk:
  assumes "providerAnswer pv r sid c att = SendRejected \<or>
           providerAnswer pv r sid c att = ResultStream [] StreamError"
  shows "fst (call_agent_async pv r sid c att) = ([], Thrown)"
  using assms call_agent_async_rejected [of pv r sid c att]
    call_agent_async_yields [of pv r sid c att "[]" StreamError]
  by auto

lemma handleSendMessage_stream_error:
  assumes "sessionId (sessionState app) \<noteq> []"
    and "providerAnswer pv (agentRunner app) (sessionId (sessionState app)) c att =
           ResultStream chunks StreamError"
    and "chunks \<noteq> []"
  shows "messages (sessionState (fst (handleSendMessage pv h app c att))) =
           messages (sessionState app) @
             [userMsg h c att,
              (initialAssistantMsg h)
                \<lparr>content := concat (map textOf chunks),
                 groundingChunks := groundingChunks_resp (last (yields [] [] chunks))\<rparr>,
              errorMsg h]"
    and "sessionService (fst (handleSendMessage pv h app c att)) =
           addMessage (addMessage (sessionService app) (sessionId (sessionState app))
             (userMsg h c att)) (sessionId (sessionState app)) (errorMsg h)"
    and "status (sessionState (fst (handleSendMessage pv h app c att))) = error"
    and "agentRunner (fst (handleSendMessage pv h app c att)) =
           snd (call_agent_async pv (agentRunner app) (sessionId (sessionState app)) c att)"
proof -
  have y: "yields [] [] chunks \<noteq> []"
    using assms(3) length_yields [of "[]" "[]" chunks] by auto
  have "fst (call_agent_async pv (agentRunner app) (sessionId (sessionState app)) c att) =
      (yields [] [] chunks, Thrown)"
    using call_agent_async_yields [OF assms(2)] by simp
  from handleSendMessage_thrown [OF assms(1) this, of h]
  obtain sets where e: "handleSendMessage pv h app c att =
      (\<lparr>sessionState = (sessionState app)
          \<lparr>messages := messages (sessionState app) @ userMsg h c att #
             (if yields [] [] chunks = [] then []
              else [lastAssistantMsg (initialAssistantMsg h) (yields [] [] chunks)]) @
             [errorMsg h],
           status := error\<rparr>,
        sessionService =
          addMessage (addMessage (sessionService app) (sessionId (sessionState app))
            (userMsg h c att)) (sessionId (sessionState app)) (errorMsg h),
        agentRunner =
          snd (call_agent_async pv (agentRunner app) (sessionId (sessionState app)) c att)\<rparr>,
       (sessionState app)\<lparr>messages := messages (sessionState app) @ [userMsg h c att],
                          status := thinking\<rparr> #
       sets @
       [(sessionState app)
          \<lparr>messages := messages (sessionState app) @ userMsg h c att #
             (if yields [] [] chunks = [] then []
              else [lastAssistantMsg (initialAssistantMsg h) (yields [] [] chunks)]) @
             [errorMsg h],
           status := error\<rparr>])"
    by blast
  show "messages (sessionState (fst (handleSendMessage pv h app c att))) =
           messages (sessionState app) @
             [userMsg h c att,
              (initialAssistantMsg h)
                \<lparr>content := concat (map textOf chunks),
                 groundingChunks := groundingChunks_resp (last (yields [] [] chunks))\<rparr>,
              errorMsg h]"
    using y by (simp add: e lastAssistantMsg_def last_yields [OF assms(3)])
  show "sessionService (fst (handleSendMessage pv h app c att)) =
           addMessage (addMessage (sessionService app) (sessionId (sessionState app))
             (userMsg h c att)) (sessionId (sessionState app)) (errorMsg h)"
    by (simp add: e)
  show "status (sessionState (fst (handleSendMessage pv h app c att))) = error"
    by (simp add: e)
  show "agentRunner (fst (handleSendMessage pv h app c att)) =
           snd (call_agent_async pv (agentRunner app) (sessionId (sessionState app)) c att)"
    by (simp add: e)
qed

lemma handleSendMessage_statuses:
  assumes "sessionId (sessionState app) \<noteq> []"
    and "fst (call_agent_async pv (agentRunner app) (sessionId (sessionState app)) c att) =
           (stream, completion)"
  shows "remdups_adj (map status (snd (handleSendMessage pv h app c att))) =
           thinking # (if stream = [] then [] else [streaming]) @
             [if completion = Returned then idle else error]"
    and "status (sessionState (fst (handleSendMessage pv h app c att))) =
           (if completion = Returned then idle else error)"
    and "last (map status (snd (handleSendMessage pv h app c att))) =
           (if completion = Returned then idle else error)"
proof -
  have "remdups_adj (map status (snd (handleSendMessage pv h app c att))) =
           thinking # (if stream = [] then [] else [streaming]) @
             [if completion = Returned then idle else error] \<and>
        status (sessionState (fst (handleSendMessage pv h app c att))) =
           (if completion = Returned then idle else error) \<and>
        last (map status (snd (handleSendMessage pv h app c att))) =
           (if completion = Returned then idle else error)"
  proof (cases completion)
    case Returned
    from handleSendMessage_returned [OF assms(1) assms(2) [unfolded Returned], of h]
    obtain sets where s: "sets = [] \<longleftrightarrow> stream = []" "\<forall>s \<in> set sets. status s = streaming"
      and e: "handleSendMessage pv h app c att =
        (\<lparr>sessionState = (sessionState app)
            \<lparr>messages := messages (sessionState app) @ userMsg h c att #
               (if stream = [] then [] else [lastAssistantMsg (initialAssistantMsg h) stream]),
             status := idle\<rparr>,
          sessionService =
            addMessage (addMessage (sessionService app) (sessionId (sessionState app))
              (userMsg h c att)) (sessionId (sessionState app))
              (lastAssistantMsg (initialAssistantMsg h) stream),
          agentRunner =
            snd (call_agent_async pv (agentRunner app) (sessionId (sessionState app)) c att)\<rparr>,
         (sessionState app)\<lparr>messages := messages (sessionState app) @ [userMsg h c att],
                            status := thinking\<rparr> #
         sets @
         [(sessionState app)
            \<lparr>messages := messages (sessionState app) @ userMsg h c att #
               (if stream = [] then [] else [lastAssistantMsg (initialAssistantMsg h) stream]),
             status := idle\<rparr>])"
      by blast
    from status_path [OF s(2), of idle] s(1) Returned show ?thesis
      by (simp add: e)
  next
    case Thrown
    from handleSendMessage_thrown [OF assms(1) assms(2) [unfolded Thrown], of h]
    obtain sets where s: "sets = [] \<longleftrightarrow> stream = []" "\<forall>s \<in> set sets. status s = streaming"
      and e: "handleSendMessage pv h app c att =
        (\<lparr>sessionState = (sessionState app)
            \<lparr>messages := messages (sessionState app) @ userMsg h c att #
               (if stream = [] then [] else [lastAssistantMsg (initialAssistantMsg h) stream]) @
               [errorMsg h],
             status := error\<rparr>,
          sessionService =
            addMessage (addMessage (sessionService app) (sessionId (sessionState app))
              (userMsg h c att)) (sessionId (sessionState app)) (errorMsg h),
          agentRunner =
            snd (call_agent_async pv (agentRunner app) (sessionId (sessionState app)) c att)\<rparr>,
         (sessionState app)\<lparr>messages := messages (sessionState app) @ [userMsg h c att],
                            status := thinking\<rparr> #
         sets @
         [(sessionState app)
            \<lparr>messages := messages (sessionState app) @ userMsg h c att #
               (if stream = [] then [] else [lastAssistantMsg (initialAssistantMsg h) stream]) @
               [errorMsg h],
             status := error\<rparr>])"
      by blast
    from status_path [OF s(2), of error] s(1) Thrown show ?thesis
      by (simp add: e)
  qed
  then show "remdups_adj (map status (snd (handleSendMessage pv h app c att))) =
           thinking # (if stream = [] then [] else [streaming]) @
             [if completion = Returned then idle else error]"
    and "status (sessionState (fst (handleSendMessage pv h app c att))) =
           (if completion = Returned then idle else error)"
    and "last (map status (snd (handleSendMessage pv h app c att))) =
           (if completion = Returned then idle else error)"
    by simp_all
qed


text \<open>
  C5. In a turn (the session identifier is not empty) whose send is rejected, or whose
  stream fails before its first chunk, the transcript gets the user message and then the
  error message and nothing else, and so does the history in the Session Store; the
  error message has the role \<open>SYSTEM\<close> and the fixed error text; no assistant message is
  added to either; the status goes to \<open>thinking\<close> and then to \<open>error\<close>.
\<close>

theorem failure_before_first_chunk:
  assumes "sessionId (sessionState app) \<noteq> []"
    and "providerAnswer pv (agentRunner app) (sessionId (sessionState app)) c att = SendRejected \<or>
         providerAnswer pv (agentRunner app) (sessionId (sessionState app)) c att =
           ResultStream [] StreamError"
  shows "messages (sessionState (fst (handleSendMessage pv h app c att))) =
           messages (sessionState app) @ [userMsg h c att, errorMsg h] \<and>
         getHistory (sessionService (fst (handleSendMessage pv h app c att)))
             (sessionId (sessionState app)) =
           getHistory (sessionService app) (sessionId (sessionState app)) @
             [userMsg h c att, errorMsg h] \<and>
         role (userMsg h c att) = USER \<and>
         role (errorMsg h) = SYSTEM \<and>
         content (errorMsg h) = ERROR_TEXT \<and>
         status (sessionState (fst (handleSendMessage pv h app c att))) = error \<and>
         map status (snd (handleSendMessage pv h app c att)) = [thinking, error]"
proof -
  have "fst (call_agent_async pv (agentRunner app) (sessionId (sessionState app)) c att) =
      ([], Thrown)"
    using assms(2) by (rule thrown_before_first_chunk)
  from handleSendMessage_thrown [OF assms(1) this, of h]
  have e: "handleSendMessage pv h app c att =
      (\<lparr>sessionState = (sessionState app)
          \<lparr>messages := messages (sessionState app) @ [userMsg h c att, errorMsg h],
           status := error\<rparr>,
        sessionService =
          addMessage (addMessage (sessionService app) (sessionId (sessionState app))
            (userMsg h c att)) (sessionId (sessionState app)) (errorMsg h),
        agentRunner =
          snd (call_agent_async pv (agentRunner app) (sessionId (sessionState app)) c att)\<rparr>,
       [(sessionState app)\<lparr>messages := messages (sessionState app) @ [userMsg h c att],
                           status := thinking\<rparr>,
        (sessionState app)
          \<lparr>messages := messages (sessionState app) @ [userMsg h c att, errorMsg h],
           status := error\<rparr>])"
    by auto
  show ?thesis
    by (simp add: e getHistory_two) (simp add: userMsg_def errorMsg_def)
qed

theorem failure_before_first_chunk_witness:
  "sessionId (sessionState app0) \<noteq> [] \<and>
   providerAnswer (answering SendRejected) (agentRunner app0) (sessionId (sessionState app0))
     ''ping'' None = SendRejected \<and>
   map role (messages (sessionState
     (fst (handleSendMessage (answering SendRejected) host0 app0 ''ping'' None)))) =
     [ASSISTANT, USER, SYSTEM] \<and>
   map content (messages (sessionState
     (fst (handleSendMessage (answering SendRejected) host0 app0 ''ping'' None)))) =
     [''hello'', ''ping'', ERROR_TEXT] \<and>
   map role (getHistory (sessionService
     (fst (handleSendMessage (answering SendRejected) host0 app0 ''ping'' None))) ''s1'') =
     [ASSISTANT, USER, SYSTEM] \<and>
   map content (getHistory (sessionService
     (fst (handleSendMessage (answering SendRejected) host0 app0 ''ping'' None))) ''s1'') =
     [''hello'', ''ping'', ERROR_TEXT] \<and>
   status (sessionState
     (fst (handleSendMessage (answering SendRejected) host0 app0 ''ping'' None))) = error \<and>
   map status (snd (handleSendMessage (answering SendRejected) host0 app0 ''ping'' None)) =
     [thinking, error] \<and>
   providerAnswer (answering (ResultStream [] StreamError)) (agentRunner app0)
     (sessionId (sessionState app0)) ''ping'' None = ResultStream [] StreamError \<and>
   map content (messages (sessionState
     (fst (handleSendMessage (answering (ResultStream [] StreamError)) host0 app0 ''ping''
        None)))) = [''hello'', ''ping'', ERROR_TEXT] \<and>
   map status (snd (handleSendMessage (answering (ResultStream [] StreamError)) host0 app0
     ''ping'' None)) = [thinking, error]"
proof -
  have i: "sessionId (sessionState app0) \<noteq> []"
    by (simp add: app0_def)
  have a: "providerAnswer (answering SendRejected) (agentRunner app0)
      (sessionId (sessionState app0)) ''ping'' None = SendRejected"
    by (simp add: providerAnswer_def answering_def)
  have s: "sessionId (sessionState app0) = ''s1''"
    and m: "messages (sessionState app0) = [msg ASSISTANT ''hello'']"
    by (simp_all add: app0_def)
  have g: "getHistory (sessionService app0) ''s1'' = [msg ASSISTANT ''hello'']"
    by (simp add: app0_def getHistory_addMessage_same)
       (simp add: getHistory_def getHistoryRef_def createSession_def newArray_def
          newSessionService_def)
  have a': "providerAnswer (answering (ResultStream [] StreamError)) (agentRunner app0)
      (sessionId (sessionState app0)) ''ping'' None = ResultStream [] StreamError"
    by (simp add: providerAnswer_def answering_def)
  note th = failure_before_first_chunk [OF i disjI1 [OF a], of host0]
  note th' = failure_before_first_chunk [OF i disjI2 [OF a'], of host0]
  show ?thesis
    using th th' i a a'
    by (simp add: s m g) (simp add: msg_def userMsg_def errorMsg_def)
qed

text \<open>
  C6. In a turn whose stream fails after one chunk or more, the message is sent once (the
  turn adds one request to those sent to the provider: no retry). The Session Store
  gets the user message and the error message only: nothing of the partial answer is
  kept there. The transcript keeps the assistant message with the text accumulated up to
  the last chunk received, and the error message is appended after it; the status is
  \<open>error\<close>.
\<close>

theorem failure_mid_stream:
  assumes "sessionId (sessionState app) \<noteq> []"
    and "providerAnswer pv (agentRunner app) (sessionId (sessionState app)) c att =
           ResultStream chunks StreamError"
    and "chunks \<noteq> []"
  shows "requests (client (agentRunner (fst (handleSendMessage pv h app c att)))) =
           requests (client (agentRunner app)) @
             [(sessionChat (instruction pv) (agentRunner app) (sessionId (sessionState app)),
               messageContent c att)] \<and>
         getHistory (sessionService (fst (handleSendMessage pv h app c att)))
             (sessionId (sessionState app)) =
           getHistory (sessionService app) (sessionId (sessionState app)) @
             [userMsg h c att, errorMsg h] \<and>
         messages (sessionState (fst (handleSendMessage pv h app c att))) =
           messages (sessionState app) @
             [userMsg h c att,
              (initialAssistantMsg h)
                \<lparr>content := concat (map textOf chunks),
                 groundingChunks := groundingChunks_resp (last (yields [] [] chunks))\<rparr>,
              errorMsg h] \<and>
         status (sessionState (fst (handleSendMessage pv h app c att))) = error"
  using handleSendMessage_stream_error [OF assms, of h]
  by (simp add: requests_call_agent_async getHistory_two)

theorem failure_mid_stream_witness:
  "sessionId (sessionState app0) \<noteq> [] \<and>
   providerAnswer
     (answering (ResultStream [textChunk (Some ''Hel''), textChunk (Some ''lo '')] StreamError))
     (agentRunner app0) (sessionId (sessionState app0)) ''ping'' None =
     ResultStream [textChunk (Some ''Hel''), textChunk (Some ''lo '')] StreamError \<and>
   [textChunk (Some ''Hel''), textChunk (Some ''lo '')] \<noteq> [] \<and>
   length (requests (client (agentRunner (fst (handleSendMessage
     (answering (ResultStream [textChunk (Some ''Hel''), textChunk (Some ''lo '')] StreamError))
     host0 app0 ''ping'' None))))) = 1 \<and>
   map content (getHistory (sessionService (fst (handleSendMessage
     (answering (ResultStream [textChunk (Some ''Hel''), textChunk (Some ''lo '')] StreamError))
     host0 app0 ''ping'' None))) ''s1'') = [''hello'', ''ping'', ERROR_TEXT] \<and>
   map content (messages (sessionState (fst (handleSendMessage
     (answering (ResultStream [textChunk (Some ''Hel''), textChunk (Some ''lo '')] StreamError))
     host0 app0 ''ping'' None)))) = [''hello'', ''ping'', ''Hello '', ERROR_TEXT] \<and>
   status (sessionState (fst (handleSendMessage
     (answering (ResultStream [textChunk (Some ''Hel''), textChunk (Some ''lo '')] StreamError))
     host0 app0 ''ping'' None))) = error"
proof -
  let ?chunks = "[textChunk (Some ''Hel''), textChunk (Some ''lo '')]"
  let ?pv = "answering (ResultStream ?chunks StreamError)"
  have i: "sessionId (sessionState app0) \<noteq> []"
    by (simp add: app0_def)
  have a: "providerAnswer ?pv (agentRunner app0) (sessionId (sessionState app0)) ''ping'' None =
      ResultStream ?chunks StreamError"
    by (simp add: providerAnswer_def answering_def)
  have n: "?chunks \<noteq> []" by simp
  have s: "sessionId (sessionState app0) = ''s1''"
    and m: "messages (sessionState app0) = [msg ASSISTANT ''hello'']"
    and r: "requests (client (agentRunner app0)) = []"
    by (simp_all add: app0_def newAgentRunner_def)
  have g: "getHistory (sessionService app0) ''s1'' = [msg ASSISTANT ''hello'']"
    by (simp add: app0_def getHistory_addMessage_same)
       (simp add: getHistory_def getHistoryRef_def createSession_def newArray_def
          newSessionService_def)
  note th = failure_mid_stream [OF i a n, of host0]
  show ?thesis
    using th i a
    by (simp add: s m g r)
       (simp add: msg_def userMsg_def errorMsg_def initialAssistantMsg_def textOf_def
          textChunk_def)
qed

text \<open>
  After a failure that follows the chunk \<open>Hel\<close>, the transcript still holds the
  assistant message with the text \<open>Hel\<close>, before the error message.
\<close>

theorem partial_text_superseded_counterexample:
  "sessionId (sessionState app0) \<noteq> [] \<and>
   providerAnswer (answering (ResultStream [textChunk (Some ''Hel'')] StreamError))
     (agentRunner app0) (sessionId (sessionState app0)) ''ping'' None =
     ResultStream [textChunk (Some ''Hel'')] StreamError \<and>
   map role (messages (sessionState (fst (handleSendMessage
     (answering (ResultStream [textChunk (Some ''Hel'')] StreamError))
     host0 app0 ''ping'' None)))) = [ASSISTANT, USER, ASSISTANT, SYSTEM] \<and>
   map content (messages (sessionState (fst (handleSendMessage
     (answering (ResultStream [textChunk (Some ''Hel'')] StreamError))
     host0 app0 ''ping'' None)))) = [''hello'', ''ping'', ''Hel'', ERROR_TEXT]"
proof -
  let ?pv = "answering (ResultStream [textChunk (Some ''Hel'')] StreamError)"
  have i: "sessionId (sessionState app0) \<noteq> []"
    by (simp add: app0_def)
  have a: "providerAnswer ?pv (agentRunner app0) (sessionId (sessionState app0)) ''ping'' None =
      ResultStream [textChunk (Some ''Hel'')] StreamError"
    by (simp add: providerAnswer_def answering_def)
  have m: "messages (sessionState app0) = [msg ASSISTANT ''hello'']"
    by (simp add: app0_def)
  show ?thesis
    using handleSendMessage_stream_error(1) [OF i a, of host0] i a
    by (simp add: m)
       (simp add: msg_def userMsg_def errorMsg_def initialAssistantMsg_def textOf_def
          textChunk_def)
qed

text \<open>
  C7. During a turn the status is set to \<open>thinking\<close>, then to \<open>streaming\<close> if and only if
  the stream delivers a chunk (when the first one arrives), then to \<open>idle\<close> if the stream
  ends normally and to \<open>error\<close> if the send is rejected or the stream fails, before any
  chunk or after some. So a turn takes one of the paths \<open>thinking, streaming, idle\<close>;
  \<open>thinking, idle\<close> (a stream without chunks); \<open>thinking, error\<close>;
  \<open>thinking, streaming, error\<close>, whatever the status it starts from, and it ends in the
  last status of its path. The composer is disabled exactly when the status is
  \<open>thinking\<close> or \<open>streaming\<close>, and then \<^verbatim>\<open>handleSubmit\<close> makes no \<^verbatim>\<open>onSend\<close> call and
  leaves the composer as it is.
\<close>

theorem turn_status_machine:
  assumes "sessionId (sessionState app) \<noteq> []"
  shows "remdups_adj (map status (snd (handleSendMessage pv h app c att))) =
           (case providerAnswer pv (agentRunner app) (sessionId (sessionState app)) c att of
              SendRejected \<Rightarrow> [thinking, error]
            | ResultStream chunks e \<Rightarrow>
                thinking # (if chunks = [] then [] else [streaming]) @
                  [case e of EndOfStream \<Rightarrow> idle | StreamError \<Rightarrow> error]) \<and>
         status (sessionState (fst (handleSendMessage pv h app c att))) =
           last (map status (snd (handleSendMessage pv h app c att))) \<and>
         (disabled st \<longleftrightarrow> status st = thinking \<or> status st = streaming) \<and>
         (status st = thinking \<or> status st = streaming \<longrightarrow>
            handleSubmit trim (disabled st) ci = (None, ci))"
proof -
  let ?res = "fst (call_agent_async pv (agentRunner app) (sessionId (sessionState app)) c att)"
  have p: "?res = (fst ?res, snd ?res)" by simp
  note st = handleSendMessage_statuses [OF assms p, of h]
  have path: "remdups_adj (map status (snd (handleSendMessage pv h app c att))) =
      (case providerAnswer pv (agentRunner app) (sessionId (sessionState app)) c att of
         SendRejected \<Rightarrow> [thinking, error]
       | ResultStream chunks e \<Rightarrow>
           thinking # (if chunks = [] then [] else [streaming]) @
             [case e of EndOfStream \<Rightarrow> idle | StreamError \<Rightarrow> error])"
  proof (cases "providerAnswer pv (agentRunner app) (sessionId (sessionState app)) c att")
    case SendRejected
    with st(1) call_agent_async_rejected [OF SendRejected] show ?thesis by simp
  next
    case (ResultStream chunks e)
    have "yields [] [] chunks = [] \<longleftrightarrow> chunks = []"
      using length_yields [of "[]" "[]" chunks] by auto
    with st(1) call_agent_async_yields [OF ResultStream] ResultStream show ?thesis
      by (cases e) simp_all
  qed
  have "handleSubmit trim (disabled st) ci = (None, ci)"
    if "status st = thinking \<or> status st = streaming"
    using that by (auto simp: handleSubmit_def disabled_def)
  with path st(2,3) show ?thesis by (simp add: disabled_def)
qed

theorem turn_status_machine_witness:
  "sessionId (sessionState app0) \<noteq> [] \<and>
   status (sessionState app0) = idle \<and>
   remdups_adj (map status (snd (handleSendMessage
     (answering (ResultStream [textChunk (Some ''Hel''), textChunk (Some ''lo '')] EndOfStream))
     host0 app0 ''ping'' None))) = [thinking, streaming, idle] \<and>
   status (sessionState (fst (handleSendMessage
     (answering (ResultStream [textChunk (Some ''Hel''), textChunk (Some ''lo '')] EndOfStream))
     host0 app0 ''ping'' None))) = idle \<and>
   remdups_adj (map status (snd (handleSendMessage (answering SendRejected)
     host0 app0 ''ping'' None))) = [thinking, error] \<and>
   remdups_adj (map status (snd (handleSendMessage (answering (ResultStream [] EndOfStream))
     host0 app0 ''ping'' None))) = [thinking, idle] \<and>
   status (sessionState app0\<lparr>status := streaming\<rparr>) = streaming \<and>
   disabled (sessionState app0\<lparr>status := streaming\<rparr>) \<and>
   handleSubmit id (disabled (sessionState app0\<lparr>status := streaming\<rparr>)) composer0 =
     (None, composer0) \<and>
   \<not> disabled (sessionState app0) \<and>
   fst (handleSubmit id (disabled (sessionState app0)) composer0) =
     Some (''look'', Some \<lparr>base64 = Some ''QUJD'', mimeType = ''image/png''\<rparr>)"
proof -
  let ?ok = "answering (ResultStream [textChunk (Some ''Hel''), textChunk (Some ''lo '')] EndOfStream)"
  let ?st = "sessionState app0\<lparr>status := streaming\<rparr>"
  have i: "sessionId (sessionState app0) \<noteq> []"
    by (simp add: app0_def)
  have s0: "status (sessionState app0) = idle"
    by (simp add: app0_def)
  have s: "status ?st = streaming" by simp
  note t1 = turn_status_machine [OF i, of ?ok host0 "''ping''" None ?st id composer0]
  note t2 = turn_status_machine [OF i, of "answering SendRejected" host0 "''ping''" None
      "sessionState app0" id composer0]
  note t3 = turn_status_machine [OF i, of "answering (ResultStream [] EndOfStream)" host0
      "''ping''" None "sessionState app0" id composer0]
  have p1: "remdups_adj (map status (snd (handleSendMessage ?ok host0 app0 ''ping'' None))) =
      [thinking, streaming, idle]"
    using t1 by (simp add: providerAnswer_def answering_def)
  have f1: "status (sessionState (fst (handleSendMessage ?ok host0 app0 ''ping'' None))) = idle"
    using t1 p1 last_map [of "snd (handleSendMessage ?ok host0 app0 ''ping'' None)" status]
    by (metis last.simps last_remdups_adj list.distinct(1))
  have p2: "remdups_adj (map status (snd (handleSendMessage (answering SendRejected)
      host0 app0 ''ping'' None))) = [thinking, error]"
    using t2 by (simp add: providerAnswer_def answering_def)
  have p3: "remdups_adj (map status (snd (handleSendMessage
      (answering (ResultStream [] EndOfStream)) host0 app0 ''ping'' None))) = [thinking, idle]"
    using t3 by (simp add: providerAnswer_def answering_def)
  have d: "disabled ?st" using t1 s by blast
  have h: "handleSubmit id (disabled ?st) composer0 = (None, composer0)"
    using t1 s by blast
  have nd: "\<not> disabled (sessionState app0)" using t2 s0 by simp
  have go: "fst (handleSubmit id (disabled (sessionState app0)) composer0) =
      Some (''look'', Some \<lparr>base64 = Some ''QUJD'', mimeType = ''image/png''\<rparr>)"
    using nd by (simp add: handleSubmit_def composer0_def)
  show ?thesis
    by (rule conjI [OF i conjI [OF s0 conjI [OF p1 conjI [OF f1 conjI [OF p2 conjI [OF p3
          conjI [OF s conjI [OF d conjI [OF h conjI [OF nd go]]]]]]]]]])
qed

text \<open>
  A turn that starts idle and fails after the chunk \<open>Hel\<close> passes through \<open>streaming\<close>
  on its way to \<open>error\<close>.
\<close>

theorem failure_path_counterexample:
  "sessionId (sessionState app0) \<noteq> [] \<and>
   status (sessionState app0) = idle \<and>
   providerAnswer (answering (ResultStream [textChunk (Some ''Hel'')] StreamError))
     (agentRunner app0) (sessionId (sessionState app0)) ''ping'' None =
     ResultStream [textChunk (Some ''Hel'')] StreamError \<and>
   remdups_adj (map status (snd (handleSendMessage
     (answering (ResultStream [textChunk (Some ''Hel'')] StreamError))
     host0 app0 ''ping'' None))) = [thinking, streaming, error]"
proof -
  let ?pv = "answering (ResultStream [textChunk (Some ''Hel'')] StreamError)"
  have i: "sessionId (sessionState app0) \<noteq> []"
    by (simp add: app0_def)
  have s0: "status (sessionState app0) = idle"
    by (simp add: app0_def)
  have a: "providerAnswer ?pv (agentRunner app0) (sessionId (sessionState app0)) ''ping'' None =
      ResultStream [textChunk (Some ''Hel'')] StreamError"
    by (simp add: providerAnswer_def answering_def)
  have "fst (call_agent_async ?pv (agentRunner app0) (sessionId (sessionState app0)) ''ping'' None)
      = (yields [] [] [textChunk (Some ''Hel'')], Thrown)"
    using call_agent_async_yields [OF a] by simp
  from handleSendMessage_statuses(1) [OF i this, of host0]
  have "remdups_adj (map status (snd (handleSendMessage ?pv host0 app0 ''ping'' None))) =
      [thinking, streaming, error]"
    by (simp add: Let_def)
  with i s0 a show ?thesis by blast
qed

end
